theory Spec2Isabelle
  imports
    Main
    "HOL-Library.Word"
    "HOL-Library.Char_ord"
    "HOL-Library.List_Lexorder"
begin

unbundle bit_operations_syntax

section \<open>Data model\<close>

text \<open>
  The events are the JSON objects of the ledger's reply (\<^verbatim>\<open>response.json()\<close>).
  A JSON value is text, an integer, a floating-point number, \<^verbatim>\<open>null\<close> (Python's
  \<^verbatim>\<open>None\<close>), a list or an object;
  text is held as its UTF-8 byte string (an Isabelle \<^typ>\<open>char\<close> is one byte), which is
  what the encoder measures and writes. A Python \<^verbatim>\<open>dict\<close> keeps its keys in insertion
  order, so an object is an association list; \<^verbatim>\<open>d[k]\<close> is \<^term>\<open>map_of d k\<close>.
  A floating-point number is kept as mantissa and binary exponent; no operation of the
  program looks inside one. JSON's \<^verbatim>\<open>true\<close> and \<^verbatim>\<open>false\<close> are not modelled: the
  encoding rules of the specification (section 4.2) have no case for a truth value.
  Where a theorem needs the encoder to accept a value, it says so with the encoder's
  result, not with a property of the value.
\<close>

datatype jvalue =
    JStr string
  | JInt int
  | JFloat int int
  | JNull
  | JList "jvalue list"
  | JDict "(string \<times> jvalue) list"

type_synonym event = "(string \<times> jvalue) list"

text \<open>The exceptions of \<^verbatim>\<open>v1.py\<close>, with what their messages report, Python's
  \<^verbatim>\<open>KeyError\<close> with the key it names, and the encoder's refusal.\<close>

datatype error =
    SimpleHashFieldMissing jvalue "string set"
  | SimpleHashPendingEventFound jvalue jvalue
  | SimpleHashFieldError
  | KeyError string
  | EncodingError

text \<open>\<^verbatim>\<open>V1_FIELDS\<close> is a Python set of 14 names.\<close>

definition V1_FIELDS :: "string set" where
  "V1_FIELDS = {
     ''identity'',
     ''asset_identity'',
     ''event_attributes'',
     ''asset_attributes'',
     ''operation'',
     ''behaviour'',
     ''timestamp_declared'',
     ''timestamp_accepted'',
     ''timestamp_committed'',
     ''principal_accepted'',
     ''principal_declared'',
     ''confirmation_status'',
     ''from'',
     ''tenant_identity''}"

text \<open>Iterating over a Python set visits its elements in an order the language does not
  fix. \<^verbatim>\<open>redact_event\<close> iterates over \<^verbatim>\<open>V1_FIELDS\<close>; the model takes the order
  of the source text, and \<open>binary_encode_redact_any_order\<close> below shows that the encoded
  bytes are the same for every other order.\<close>

definition V1_FIELDS_iter :: "string list" where
  "V1_FIELDS_iter = [
     ''identity'',
     ''asset_identity'',
     ''event_attributes'',
     ''asset_attributes'',
     ''operation'',
     ''behaviour'',
     ''timestamp_declared'',
     ''timestamp_accepted'',
     ''timestamp_committed'',
     ''principal_accepted'',
     ''principal_declared'',
     ''confirmation_status'',
     ''from'',
     ''tenant_identity'']"

section \<open>Validation: \<^verbatim>\<open>__check_event\<close>\<close>

text \<open>\<^verbatim>\<open>event[k]\<close>: the value, or \<^verbatim>\<open>KeyError\<close>.\<close>

definition getitem :: "event \<Rightarrow> string \<Rightarrow> error + jvalue" where
  "getitem event k = (case map_of event k of None \<Rightarrow> Inl (KeyError k) | Some v \<Rightarrow> Inr v)"

text \<open>
  \<^verbatim>\<open>missing = V1_FIELDS.difference(event)\<close>; when it is not empty the message of
  \<^verbatim>\<open>SimpleHashFieldMissing\<close> is formatted first, and the f-string evaluates
  \<^verbatim>\<open>event['identity']\<close>, which raises \<^verbatim>\<open>KeyError\<close> when that key is absent.
  The status test is Python's \<^verbatim>\<open>not in ("FAILED", "CONFIRMED")\<close>, equality with one of
  the two strings.
\<close>

definition check_event :: "event \<Rightarrow> error + unit" where
  "check_event event =
     (let missing = V1_FIELDS - set (map fst event) in
      if missing \<noteq> {} then
        (case getitem event ''identity'' of
           Inl e \<Rightarrow> Inl e
         | Inr ident \<Rightarrow> Inl (SimpleHashFieldMissing ident missing))
      else
        (case getitem event ''confirmation_status'' of
           Inl e \<Rightarrow> Inl e
         | Inr status \<Rightarrow>
             if status \<notin> {JStr ''FAILED'', JStr ''CONFIRMED''} then
               (case getitem event ''identity'' of
                  Inl e \<Rightarrow> Inl e
                | Inr ident \<Rightarrow> Inl (SimpleHashPendingEventFound ident status))
             else Inr ()))"

section \<open>Redaction: \<^verbatim>\<open>redact_event\<close>\<close>

text \<open>\<^verbatim>\<open>{k: event[k] for k in V1_FIELDS}\<close>: the comprehension visits the names in
  iteration order and raises \<^verbatim>\<open>KeyError\<close> at the first one the event lacks.\<close>

fun redact_fields :: "string list \<Rightarrow> event \<Rightarrow> error + event" where
  "redact_fields [] event = Inr []"
| "redact_fields (k # ks) event =
     (case getitem event k of
        Inl e \<Rightarrow> Inl e
      | Inr v \<Rightarrow>
          (case redact_fields ks event of
             Inl e \<Rightarrow> Inl e
           | Inr r \<Rightarrow> Inr ((k, v) # r)))"

definition redact_event :: "event \<Rightarrow> error + event" where
  "redact_event event = redact_fields V1_FIELDS_iter event"

section \<open>Canonical encoding: \<^verbatim>\<open>bencodepy.encode\<close>\<close>

text \<open>
  Modelled from the spec: \<^verbatim>\<open>bencodepy\<close> is a library outside the repository; the
  encoder follows section 4.2 of the specification. Text is written as its length in
  decimal, a colon and the bytes; an integer as \<^verbatim>\<open>i\<close>, its decimal digits and
  \<^verbatim>\<open>e\<close>; a list as \<^verbatim>\<open>l\<close>, its elements in order and \<^verbatim>\<open>e\<close>; a map as
  \<^verbatim>\<open>d\<close>, its entries with the keys sorted by byte value, each key followed by its
  value, and \<^verbatim>\<open>e\<close>; a floating-point value is refused. The rules have no case for
  \<^verbatim>\<open>null\<close>, and the encoder refuses it too. A refusal anywhere inside a value refuses
  the whole value: \<open>None\<close> is the encoder's exception.
\<close>

definition digit_char :: "nat \<Rightarrow> char" where
  "digit_char d = ''0123456789'' ! d"

text \<open>Python's \<^verbatim>\<open>str(n)\<close> for a natural number and for an integer.\<close>

function str_nat :: "nat \<Rightarrow> string" where
  "str_nat n = (if n < 10 then [digit_char n] else str_nat (n div 10) @ [digit_char (n mod 10)])"
  by pat_completeness auto
termination
  by (relation "measure id") auto

declare str_nat.simps [simp del]

definition str_int :: "int \<Rightarrow> string" where
  "str_int i = (if i < 0 then CHR ''-'' # str_nat (nat (- i)) else str_nat (nat i))"

definition encode_bytes :: "string \<Rightarrow> string" where
  "encode_bytes s = str_nat (length s) @ CHR '':'' # s"

text \<open>Modelled from the spec: \<^verbatim>\<open>bencodepy.encode\<close>, which the program imports as
  \<^verbatim>\<open>binary_encode\<close>, by the rules of section 4.2.\<close>

fun binary_encode :: "jvalue \<Rightarrow> string option" where
  "binary_encode (JStr s) = Some (encode_bytes s)"
| "binary_encode (JInt i) = Some (CHR ''i'' # str_int i @ ''e'')"
| "binary_encode (JFloat m e) = None"
| "binary_encode JNull = None"
| "binary_encode (JList xs) =
     map_option (\<lambda>bs. CHR ''l'' # concat bs @ ''e'') (those (map binary_encode xs))"
| "binary_encode (JDict kvs) =
     map_option (\<lambda>bs. CHR ''d'' # concat bs @ ''e'')
       (those (map (\<lambda>(k, v). map_option (\<lambda>b. encode_bytes k @ b) (binary_encode v))
                   (sort_key fst kvs)))"

text \<open>Whether a floating-point value occurs anywhere inside a value.\<close>

fun has_float :: "jvalue \<Rightarrow> bool" where
  "has_float (JStr s) = False"
| "has_float (JInt i) = False"
| "has_float (JFloat m e) = True"
| "has_float JNull = False"
| "has_float (JList xs) = (\<exists>x \<in> set xs. has_float x)"
| "has_float (JDict kvs) = (\<exists>(k, v) \<in> set kvs. has_float v)"

text \<open>Whether \<^verbatim>\<open>null\<close> occurs anywhere inside a value.\<close>

fun has_null :: "jvalue \<Rightarrow> bool" where
  "has_null (JStr s) = False"
| "has_null (JInt i) = False"
| "has_null (JFloat m e) = False"
| "has_null JNull = True"
| "has_null (JList xs) = (\<exists>x \<in> set xs. has_null x)"
| "has_null (JDict kvs) = (\<exists>(k, v) \<in> set kvs. has_null v)"

section \<open>The hash: \<^verbatim>\<open>hashlib.sha256\<close>\<close>

text \<open>
  Modelled from the spec: \<^verbatim>\<open>hashlib\<close> is outside the repository; section 4.3 of the
  specification names the function as SHA-256 and section 6 the digest as 64 lowercase
  hexadecimal characters. The model follows FIPS 180-4. A 32-bit word is a natural
  number below \<open>2 ^ 32\<close> with the wrap-around of the addition written out; a byte is a
  natural number below 256.
\<close>

type_synonym w32 = nat

definition add32 :: "w32 \<Rightarrow> w32 \<Rightarrow> w32" where
  "add32 x y = (x + y) mod 2 ^ 32"

definition rotr :: "nat \<Rightarrow> w32 \<Rightarrow> w32" where
  "rotr n x = x div 2 ^ n + (x mod 2 ^ n) * 2 ^ (32 - n)"

definition shr :: "nat \<Rightarrow> w32 \<Rightarrow> w32" where
  "shr n x = x div 2 ^ n"

definition not32 :: "w32 \<Rightarrow> w32" where
  "not32 x = 0xFFFFFFFF - x"

definition Ch :: "w32 \<Rightarrow> w32 \<Rightarrow> w32 \<Rightarrow> w32" where
  "Ch x y z = (x AND y) XOR (not32 x AND z)"
definition Maj :: "w32 \<Rightarrow> w32 \<Rightarrow> w32 \<Rightarrow> w32" where
  "Maj x y z = (x AND y) XOR (x AND z) XOR (y AND z)"
definition bsig0 :: "w32 \<Rightarrow> w32" where
  "bsig0 x = rotr 2 x XOR rotr 13 x XOR rotr 22 x"
definition bsig1 :: "w32 \<Rightarrow> w32" where
  "bsig1 x = rotr 6 x XOR rotr 11 x XOR rotr 25 x"
definition ssig0 :: "w32 \<Rightarrow> w32" where
  "ssig0 x = rotr 7 x XOR rotr 18 x XOR shr 3 x"
definition ssig1 :: "w32 \<Rightarrow> w32" where
  "ssig1 x = rotr 17 x XOR rotr 19 x XOR shr 10 x"

text \<open>The round constants and the initial hash value of SHA-256.\<close>

definition K256 :: "w32 list" where
  "K256 = [
     0x428A2F98, 0x71374491, 0xB5C0FBCF, 0xE9B5DBA5,
     0x3956C25B, 0x59F111F1, 0x923F82A4, 0xAB1C5ED5,
     0xD807AA98, 0x12835B01, 0x243185BE, 0x550C7DC3,
     0x72BE5D74, 0x80DEB1FE, 0x9BDC06A7, 0xC19BF174,
     0xE49B69C1, 0xEFBE4786, 0x0FC19DC6, 0x240CA1CC,
     0x2DE92C6F, 0x4A7484AA, 0x5CB0A9DC, 0x76F988DA,
     0x983E5152, 0xA831C66D, 0xB00327C8, 0xBF597FC7,
     0xC6E00BF3, 0xD5A79147, 0x06CA6351, 0x14292967,
     0x27B70A85, 0x2E1B2138, 0x4D2C6DFC, 0x53380D13,
     0x650A7354, 0x766A0ABB, 0x81C2C92E, 0x92722C85,
     0xA2BFE8A1, 0xA81A664B, 0xC24B8B70, 0xC76C51A3,
     0xD192E819, 0xD6990624, 0xF40E3585, 0x106AA070,
     0x19A4C116, 0x1E376C08, 0x2748774C, 0x34B0BCB5,
     0x391C0CB3, 0x4ED8AA4A, 0x5B9CCA4F, 0x682E6FF3,
     0x748F82EE, 0x78A5636F, 0x84C87814, 0x8CC70208,
     0x90BEFFFA, 0xA4506CEB, 0xBEF9A3F7, 0xC67178F2]"

type_synonym hash_value = "w32 \<times> w32 \<times> w32 \<times> w32 \<times> w32 \<times> w32 \<times> w32 \<times> w32"

definition H256_init :: hash_value where
  "H256_init = (0x6A09E667, 0xBB67AE85, 0x3C6EF372, 0xA54FF53A,
                0x510E527F, 0x9B05688C, 0x1F83D9AB, 0x5BE0CD19)"

text \<open>
  One block of 64 bytes is read as sixteen big-endian words. The message schedule is
  kept as a window of sixteen words: before round \<open>t\<close> the window holds
  \<open>W\<^sub>t, \<dots>, W\<^sub>t\<^sub>+\<^sub>1\<^sub>5\<close>, its head is the word the round uses and \<open>next_word\<close>
  is \<open>W\<^sub>t\<^sub>+\<^sub>1\<^sub>6\<close>.
\<close>

type_synonym byte = nat

fun be_words :: "byte list \<Rightarrow> w32 list" where
  "be_words (a # b # c # d # rest) =
     (a * 2 ^ 24 + b * 2 ^ 16 + c * 2 ^ 8 + d) # be_words rest"
| "be_words _ = []"

fun next_word :: "w32 list \<Rightarrow> w32" where
  "next_word (w0 # w1 # w2 # w3 # w4 # w5 # w6 # w7 # w8 # w9 # w10 # w11 # w12 # w13 # w14 # _) =
     add32 (add32 (add32 (ssig1 w14) w9) (ssig0 w1)) w0"
| "next_word _ = 0"

fun round256 :: "w32 \<times> w32 \<Rightarrow> hash_value \<Rightarrow> hash_value" where
  "round256 (k, w) (a, b, c, d, e, f, g, h) =
     (let t1 = add32 (add32 (add32 (add32 h (bsig1 e)) (Ch e f g)) k) w;
          t2 = add32 (bsig0 a) (Maj a b c)
      in (add32 t1 t2, a, b, c, add32 d t1, e, f, g))"

fun add_hash :: "hash_value \<Rightarrow> hash_value \<Rightarrow> hash_value" where
  "add_hash (a, b, c, d, e, f, g, h) (a', b', c', d', e', f', g', h') =
     (add32 a a', add32 b b', add32 c c', add32 d d',
      add32 e e', add32 f f', add32 g g', add32 h h')"

fun rounds256 :: "w32 list \<Rightarrow> w32 list \<Rightarrow> hash_value \<Rightarrow> hash_value" where
  "rounds256 [] ws st = st"
| "rounds256 (k # ks) ws st = rounds256 ks (tl ws @ [next_word ws]) (round256 (k, hd ws) st)"

definition compress :: "hash_value \<Rightarrow> byte list \<Rightarrow> hash_value" where
  "compress hv block = add_hash hv (rounds256 K256 (be_words block) hv)"

text \<open>\<open>absorb\<close> compresses every complete block of the bytes and returns the bytes
  left over (fewer than 64).\<close>

function absorb :: "hash_value \<Rightarrow> byte list \<Rightarrow> hash_value \<times> byte list" where
  "absorb hv bs =
     (if length bs < 64 then (hv, bs)
      else absorb (compress hv (take 64 bs)) (drop 64 bs))"
  by pat_completeness auto
termination
  by (relation "measure (\<lambda>(hv, bs). length bs)") auto

declare absorb.simps [simp del]

definition length_bytes :: "nat \<Rightarrow> byte list" where
  "length_bytes n = map (\<lambda>i. n div 256 ^ i mod 256) [7, 6, 5, 4, 3, 2, 1, 0::nat]"

definition padding :: "nat \<Rightarrow> byte list" where
  "padding n = 0x80 # replicate ((119 - n mod 64) mod 64) 0 @ length_bytes (8 * n)"

definition hex_digit :: "nat \<Rightarrow> char" where
  "hex_digit n = ''0123456789abcdef'' ! (n mod 16)"

definition hex_word :: "w32 \<Rightarrow> string" where
  "hex_word w = map (\<lambda>i. hex_digit (w div 16 ^ i)) [7, 6, 5, 4, 3, 2, 1, 0::nat]"

fun hex_hash :: "hash_value \<Rightarrow> string" where
  "hex_hash (a, b, c, d, e, f, g, h) =
     hex_word a @ hex_word b @ hex_word c @ hex_word d @
     hex_word e @ hex_word f @ hex_word g @ hex_word h"

text \<open>
  Modelled from the spec: the hash object of \<^verbatim>\<open>hashlib.sha256\<close> (section 4.3: new,
  update, finalize). It holds the chaining value, the bytes not yet compressed and the
  number of bytes fed so far. \<^verbatim>\<open>update\<close> compresses the blocks that become complete;
  \<^verbatim>\<open>hexdigest\<close> pads a copy of the pending bytes and renders the result.
\<close>

record hasher =
  chain :: hash_value
  pending :: "byte list"
  fed :: nat

definition sha256_new :: hasher where
  "sha256_new = \<lparr>chain = H256_init, pending = [], fed = 0\<rparr>"

definition sha256_update :: "hasher \<Rightarrow> string \<Rightarrow> hasher" where
  "sha256_update st bs =
     (let (hv, rest) = absorb (chain st) (pending st @ map of_char bs)
      in \<lparr>chain = hv, pending = rest, fed = fed st + length bs\<rparr>)"

definition sha256_hexdigest :: "hasher \<Rightarrow> string" where
  "sha256_hexdigest st = hex_hash (fst (absorb (chain st) (pending st @ padding (fed st))))"

text \<open>The digest of a whole message in one piece: pad, compress block by block,
  render.\<close>

definition sha256_hex :: "string \<Rightarrow> string" where
  "sha256_hex msg =
     hex_hash (fst (absorb H256_init (map of_char msg @ padding (length msg))))"

section \<open>The anchor: \<^verbatim>\<open>anchor_events\<close>\<close>

text \<open>
  The loop of \<^verbatim>\<open>anchor_events\<close> over the events that \<^verbatim>\<open>list_events\<close> yields, with
  the hash object passed along. An exception leaves the loop at once: the result then
  holds the error and the hash object as it was at that moment.
\<close>

fun anchor_loop :: "event list \<Rightarrow> hasher \<Rightarrow> hasher \<times> error option" where
  "anchor_loop [] hasher = (hasher, None)"
| "anchor_loop (event # events) hasher =
     (case check_event event of
        Inl e \<Rightarrow> (hasher, Some e)
      | Inr _ \<Rightarrow>
          (case redact_event event of
             Inl e \<Rightarrow> (hasher, Some e)
           | Inr redacted_event \<Rightarrow>
               (case binary_encode (JDict redacted_event) of
                  None \<Rightarrow> (hasher, Some EncodingError)
                | Some bencoded_event \<Rightarrow>
                    anchor_loop events (sha256_update hasher bencoded_event))))"

text \<open>\<^verbatim>\<open>anchor_events\<close>, as a function of the sequence of events the generator
  yields before it returns: a new hash object, the loop, and the digest when the loop
  ends without an exception.\<close>

definition anchor_events :: "event list \<Rightarrow> error + string" where
  "anchor_events events =
     (case anchor_loop events sha256_new of
        (hasher, None) \<Rightarrow> Inr (sha256_hexdigest hasher)
      | (hasher, Some e) \<Rightarrow> Inl e)"

section \<open>The event source: \<^verbatim>\<open>list_events\<close>\<close>

text \<open>
  The query parameters of a request are a Python \<^verbatim>\<open>dict\<close> of strings and integers.
  The ledger service is a state machine: a request with its parameters gives the parsed
  reply and the service's next state (URL and headers are the same in every request
  and are part of the service). Of a reply, the program reads the key
  \<^verbatim>\<open>events\<close> (absent: \<open>None\<close>) and the key \<^verbatim>\<open>next_page_token\<close>
  (absent or null: \<open>None\<close>).
\<close>

datatype param_value = PStr string | PInt int

type_synonym params = "(string \<times> param_value) list"

record reply =
  reply_events :: "event list option"
  next_page_token :: "string option"

type_synonym 's service = "'s \<Rightarrow> params \<Rightarrow> reply \<times> 's"

text \<open>How a run of the generator stands: it has returned, it has raised, or it is
  still running (the model's bound on the number of requests is used up).\<close>

datatype progress = Exhausted | Raised error | Running

record listing =
  requests :: "params list"
  yielded :: "event list"
  progress :: progress

definition first_params :: "string \<Rightarrow> string \<Rightarrow> params" where
  "first_params start_time end_time = [
     (''proof_mechanism'', PStr ''SIMPLE_HASH''),
     (''timestamp_accepted_since'', PStr start_time),
     (''timestamp_accepted_before'', PStr end_time),
     (''page_size'', PInt 10),
     (''order_by'', PStr ''SIMPLEHASHV1'')]"

text \<open>
  The \<^verbatim>\<open>while True\<close> loop, bounded by the number of requests it may still make.
  \<^verbatim>\<open>if not page_token\<close> leaves the loop when the token is absent, null or the empty
  string.
\<close>

fun list_events_loop :: "nat \<Rightarrow> 's service \<Rightarrow> 's \<Rightarrow> params \<Rightarrow> listing" where
  "list_events_loop 0 service s params = \<lparr>requests = [], yielded = [], progress = Running\<rparr>"
| "list_events_loop (Suc n) service s params =
     (let (data, s') = service s params in
      case reply_events data of
        None \<Rightarrow> \<lparr>requests = [params], yielded = [], progress = Raised SimpleHashFieldError\<rparr>
      | Some events \<Rightarrow>
          (case next_page_token data of
             None \<Rightarrow> \<lparr>requests = [params], yielded = events, progress = Exhausted\<rparr>
           | Some page_token \<Rightarrow>
               if page_token = [] then
                 \<lparr>requests = [params], yielded = events, progress = Exhausted\<rparr>
               else
                 (let rest = list_events_loop n service s' [(''page_token'', PStr page_token)]
                  in \<lparr>requests = params # requests rest,
                      yielded = events @ yielded rest,
                      progress = progress rest\<rparr>)))"

definition list_events :: "nat \<Rightarrow> 's service \<Rightarrow> 's \<Rightarrow> string \<Rightarrow> string \<Rightarrow> listing" where
  "list_events n service s start_time end_time =
     list_events_loop n service s (first_params start_time end_time)"

section \<open>Notions used in the statements\<close>

text \<open>The projection of an event onto the 14 required fields, and the bytes the loop
  feeds to the hash object for an event: its redaction, encoded.\<close>

definition projection :: "event \<Rightarrow> event" where
  "projection event = map (\<lambda>k. (k, the (map_of event k))) V1_FIELDS_iter"

definition canonical_bytes :: "event \<Rightarrow> string option" where
  "canonical_bytes event =
     (case redact_event event of
        Inl e \<Rightarrow> None
      | Inr redacted_event \<Rightarrow> binary_encode (JDict redacted_event))"

text \<open>
  Python compares two \<^verbatim>\<open>dict\<close>s without regard to the order of their keys, so two
  parsed JSON values that differ only in the order of the keys of objects, at any
  depth, are the same value for the program. \<open>normal_form\<close> sorts the entries of every
  object by key: values that differ only in such orders have the same normal form.
\<close>

fun normal_form :: "jvalue \<Rightarrow> jvalue" where
  "normal_form (JStr s) = JStr s"
| "normal_form (JInt i) = JInt i"
| "normal_form (JFloat m e) = JFloat m e"
| "normal_form JNull = JNull"
| "normal_form (JList xs) = JList (map normal_form xs)"
| "normal_form (JDict kvs) = JDict (sort_key fst (map (\<lambda>(k, v). (k, normal_form v)) kvs))"

subsection \<open>Sample inputs\<close>

text \<open>A sample event with the 14 required fields, for applying a theorem to a
  concrete input; identity, confirmation status and event attributes are left open.\<close>

definition sample_event :: "jvalue \<Rightarrow> jvalue \<Rightarrow> jvalue \<Rightarrow> event" where
  "sample_event ident status attrs = [
     (''identity'', ident),
     (''asset_identity'', JStr ''assets/a1''),
     (''event_attributes'', attrs),
     (''asset_attributes'', JDict [(''arc_display_name'', JStr ''door'')]),
     (''operation'', JStr ''Record''),
     (''behaviour'', JStr ''RecordEvidence''),
     (''timestamp_declared'', JStr ''2023-01-01T00:00:00Z''),
     (''timestamp_accepted'', JStr ''2023-01-01T00:00:01Z''),
     (''timestamp_committed'', JStr ''2023-01-01T00:00:02Z''),
     (''principal_accepted'', JDict [(''issuer'', JStr ''idp'')]),
     (''principal_declared'', JDict [(''issuer'', JStr ''idp'')]),
     (''confirmation_status'', status),
     (''from'', JStr ''0x01''),
     (''tenant_identity'', JStr ''tenant/t1'')]"

text \<open>A sample ledger service: its state is the number of requests served; every reply
  holds one event, and the first two replies hold a continuation token.\<close>

definition sample_service :: "nat service" where
  "sample_service served params =
     (\<lparr>reply_events = Some [sample_event (JStr ''e'') (JStr ''CONFIRMED'') (JDict [])],
       next_page_token = (if served < 2 then Some ''next'' else None)\<rparr>,
      Suc served)"

section \<open>Validation\<close>

lemma getitem_Some [simp]: "map_of event k = Some v \<Longrightarrow> getitem event k = Inr v"
  by (simp add: getitem_def)

lemma getitem_None [simp]: "map_of event k = None \<Longrightarrow> getitem event k = Inl (KeyError k)"
  by (simp add: getitem_def)

lemma map_of_None_iff_key: "map_of event k = None \<longleftrightarrow> k \<notin> fst ` set event"
  by (simp add: map_of_eq_None_iff)

lemma V1_FIELDS_iter_set: "set V1_FIELDS_iter = V1_FIELDS"
  by (auto simp add: V1_FIELDS_iter_def V1_FIELDS_def)

lemma V1_FIELDS_iter_distinct: "distinct V1_FIELDS_iter"
  by (simp add: V1_FIELDS_iter_def)

lemma identity_in_V1_FIELDS: "''identity'' \<in> V1_FIELDS"
  by (simp add: V1_FIELDS_def)

lemma status_in_V1_FIELDS: "''confirmation_status'' \<in> V1_FIELDS"
  by (simp add: V1_FIELDS_def)

lemma check_event_incomplete:
  assumes "\<not> V1_FIELDS \<subseteq> fst ` set event"
  shows "check_event event =
           (case map_of event ''identity'' of
              None \<Rightarrow> Inl (KeyError ''identity'')
            | Some ident \<Rightarrow> Inl (SimpleHashFieldMissing ident (V1_FIELDS - fst ` set event)))"
proof -
  from assms have "V1_FIELDS - set (map fst event) \<noteq> {}" by auto
  then show ?thesis
    by (simp add: check_event_def Let_def getitem_def split: option.split)
qed

lemma required_key_lookup:
  assumes "V1_FIELDS \<subseteq> fst ` set event" and "k \<in> V1_FIELDS"
  shows "\<exists>v. map_of event k = Some v"
proof (cases "map_of event k")
  case None
  then have "k \<notin> fst ` set event" by (simp add: map_of_eq_None_iff)
  with assms show ?thesis by blast
next
  case (Some v)
  then show ?thesis by blast
qed

lemma check_event_complete:
  assumes "V1_FIELDS \<subseteq> fst ` set event"
  shows "\<exists>ident status. map_of event ''identity'' = Some ident
           \<and> map_of event ''confirmation_status'' = Some status
           \<and> check_event event =
               (if status \<in> {JStr ''FAILED'', JStr ''CONFIRMED''} then Inr ()
                else Inl (SimpleHashPendingEventFound ident status))"
proof -
  from required_key_lookup [OF assms identity_in_V1_FIELDS]
  obtain ident where i: "map_of event ''identity'' = Some ident" by blast
  from required_key_lookup [OF assms status_in_V1_FIELDS]
  obtain status where s: "map_of event ''confirmation_status'' = Some status" by blast
  from assms have m: "V1_FIELDS - set (map fst event) = {}" by auto
  have "check_event event =
          (if status \<in> {JStr ''FAILED'', JStr ''CONFIRMED''} then Inr ()
           else Inl (SimpleHashPendingEventFound ident status))"
    unfolding check_event_def Let_def m using i s by simp
  with i s show ?thesis by blast
qed

lemma sample_event_keys: "fst ` set (sample_event ident status attrs) = V1_FIELDS"
  by (auto simp add: sample_event_def V1_FIELDS_def)

lemma sample_event_identity: "map_of (sample_event ident status attrs) ''identity'' = Some ident"
  by (simp add: sample_event_def)

lemma sample_event_status:
  "map_of (sample_event ident status attrs) ''confirmation_status'' = Some status"
  by (simp add: sample_event_def)

text \<open>
  C5. An event that lacks required fields should fail with \<^verbatim>\<open>SimpleHashFieldMissing\<close>,
  also when \<^verbatim>\<open>identity\<close> is one of the missing fields. The code does so only when
  \<^verbatim>\<open>identity\<close> is present (\<open>check_event_incomplete\<close>): for an event without that key,
  here one that has only \<^verbatim>\<open>asset_identity\<close> and \<^verbatim>\<open>confirmation_status\<close>, building the
  message raises \<^verbatim>\<open>KeyError\<close> instead.
\<close>

theorem check_event_without_identity:
  "check_event [(''asset_identity'', JStr ''assets/a1''),
                (''confirmation_status'', JStr ''CONFIRMED'')] = Inl (KeyError ''identity'')"
proof -
  have "\<not> V1_FIELDS \<subseteq> fst ` set [(''asset_identity'', JStr ''assets/a1''),
                                        (''confirmation_status'', JStr ''CONFIRMED'')]"
    by (simp add: V1_FIELDS_def)
  from check_event_incomplete [OF this] show ?thesis by simp
qed

text \<open>
  C6. An event that lacks a required field and whose status is not terminal should
  report the missing field, not the status. The completeness test does come first, but
  for an event without \<^verbatim>\<open>identity\<close>, here a pending one, the error that comes out is
  \<^verbatim>\<open>KeyError\<close>, neither of the two.
\<close>

theorem check_event_pending_without_identity:
  "check_event [(''asset_identity'', JStr ''assets/a1''),
                (''confirmation_status'', JStr ''PENDING'')] = Inl (KeyError ''identity'')"
proof -
  have "\<not> V1_FIELDS \<subseteq> fst ` set [(''asset_identity'', JStr ''assets/a1''),
                                        (''confirmation_status'', JStr ''PENDING'')]"
    by (simp add: V1_FIELDS_def)
  from check_event_incomplete [OF this] show ?thesis by simp
qed

text \<open>
  C7. For an event with all 14 required fields, validation passes exactly when the
  value of \<^verbatim>\<open>confirmation_status\<close> is the string \<^verbatim>\<open>CONFIRMED\<close> or the string
  \<^verbatim>\<open>FAILED\<close>, and raises \<^verbatim>\<open>SimpleHashPendingEventFound\<close>, with the event's identity
  and its status, exactly when it is anything else.
\<close>

theorem check_event_status:
  assumes "V1_FIELDS \<subseteq> fst ` set event"
  shows "(check_event event = Inr () \<longleftrightarrow>
            map_of event ''confirmation_status'' \<in> {Some (JStr ''CONFIRMED''), Some (JStr ''FAILED'')})
       \<and> (check_event event =
              Inl (SimpleHashPendingEventFound (the (map_of event ''identity''))
                                               (the (map_of event ''confirmation_status''))) \<longleftrightarrow>
            map_of event ''confirmation_status'' \<notin> {Some (JStr ''CONFIRMED''), Some (JStr ''FAILED'')})"
proof -
  from check_event_complete [OF assms] obtain ident status where
    i: "map_of event ''identity'' = Some ident" and
    s: "map_of event ''confirmation_status'' = Some status" and
    c: "check_event event =
          (if status \<in> {JStr ''FAILED'', JStr ''CONFIRMED''} then Inr ()
           else Inl (SimpleHashPendingEventFound ident status))"
    by blast
  show ?thesis
  proof (cases "status \<in> {JStr ''FAILED'', JStr ''CONFIRMED''}")
    case True
    with c have "check_event event = Inr ()" by simp
    moreover from True have "Some status \<in> {Some (JStr ''CONFIRMED''), Some (JStr ''FAILED'')}"
      by blast
    ultimately show ?thesis using i s by simp
  next
    case False
    with c have "check_event event = Inl (SimpleHashPendingEventFound ident status)" by simp
    moreover from False have "Some status \<notin> {Some (JStr ''CONFIRMED''), Some (JStr ''FAILED'')}"
      by blast
    ultimately show ?thesis using i s by simp
  qed
qed

theorem check_event_status_witness:
  "V1_FIELDS \<subseteq> fst ` set (sample_event (JStr ''e1'') (JStr ''CONFIRMED'') (JDict []))
   \<and> check_event (sample_event (JStr ''e1'') (JStr ''CONFIRMED'') (JDict [])) = Inr ()
   \<and> V1_FIELDS \<subseteq> fst ` set (sample_event (JStr ''e2'') (JStr ''PENDING'') (JDict []))
   \<and> check_event (sample_event (JStr ''e2'') (JStr ''PENDING'') (JDict [])) =
       Inl (SimpleHashPendingEventFound (JStr ''e2'') (JStr ''PENDING''))"
proof -
  have k: "V1_FIELDS \<subseteq> fst ` set (sample_event i s a)" for i s a
    by (simp add: sample_event_keys)
  from check_event_status [OF k, of "JStr ''e1''" "JStr ''CONFIRMED''" "JDict []"]
       check_event_status [OF k, of "JStr ''e2''" "JStr ''PENDING''" "JDict []"]
  show ?thesis
    by (simp add: sample_event_keys sample_event_identity sample_event_status)
qed


section \<open>The hash object\<close>

text \<open>Feeding the chunks one by one to a hash object gives the digest of their
  concatenation: \<open>absorb\<close> on an extended input goes on from where it stopped.\<close>

lemma absorb_short: "length bs < 64 \<Longrightarrow> absorb hv bs = (hv, bs)"
  by (subst absorb.simps) simp

lemma absorb_block:
  "64 \<le> length bs \<Longrightarrow> absorb hv bs = absorb (compress hv (take 64 bs)) (drop 64 bs)"
  by (subst absorb.simps) simp

lemma absorb_append:
  "absorb hv bs = (hv', rest) \<Longrightarrow> absorb hv (bs @ cs) = absorb hv' (rest @ cs)"
proof (induction hv bs rule: absorb.induct)
  case (1 hv bs)
  show ?case
  proof (cases "length bs < 64")
    case True
    with "1.prems" show ?thesis by (simp add: absorb_short)
  next
    case False
    then have long: "64 \<le> length bs" by simp
    with "1.prems" have "absorb (compress hv (take 64 bs)) (drop 64 bs) = (hv', rest)"
      by (simp add: absorb_block)
    from "1.IH" [OF False this]
    have "absorb (compress hv (take 64 bs)) (drop 64 bs @ cs) = absorb hv' (rest @ cs)" .
    moreover from long have "absorb hv (bs @ cs) = absorb (compress hv (take 64 bs)) (drop 64 bs @ cs)"
      by (simp add: absorb_block)
    ultimately show ?thesis by simp
  qed
qed

lemma sha256_update_absorb:
  assumes "absorb H256_init m = (chain st, pending st)" and "fed st = length m"
  shows "absorb H256_init (m @ map of_char bs) =
           (chain (sha256_update st bs), pending (sha256_update st bs))
         \<and> fed (sha256_update st bs) = length (m @ map of_char bs)"
proof -
  from absorb_append [OF assms(1)]
  have "absorb H256_init (m @ map of_char bs) = absorb (chain st) (pending st @ map of_char bs)" .
  with assms(2) show ?thesis
    by (simp add: sha256_update_def split: prod.split)
qed

lemma foldl_sha256_update_absorb:
  assumes "absorb H256_init m = (chain st, pending st)" and "fed st = length m"
  shows "absorb H256_init (m @ map of_char (concat chunks)) =
           (chain (foldl sha256_update st chunks), pending (foldl sha256_update st chunks))
         \<and> fed (foldl sha256_update st chunks) = length (m @ map of_char (concat chunks))"
  using assms
proof (induction chunks arbitrary: st m)
  case Nil
  then show ?case by simp
next
  case (Cons c chunks)
  from sha256_update_absorb [OF Cons.prems, of c]
  have step: "absorb H256_init (m @ map of_char c) =
                (chain (sha256_update st c), pending (sha256_update st c))"
    and len: "fed (sha256_update st c) = length (m @ map of_char c)"
    by simp_all
  from Cons.IH [OF step len] show ?case by simp
qed

lemma sha256_new_absorb:
  "absorb H256_init [] = (chain sha256_new, pending sha256_new)" "fed sha256_new = length []"
  by (simp_all add: sha256_new_def absorb_short)

lemma sha256_streaming:
  "sha256_hexdigest (foldl sha256_update sha256_new chunks) = sha256_hex (concat chunks)"
proof -
  let ?st = "foldl sha256_update sha256_new chunks"
  let ?m = "map of_char (concat chunks) :: byte list"
  from foldl_sha256_update_absorb [OF sha256_new_absorb, of chunks]
  have a: "absorb H256_init ?m = (chain ?st, pending ?st)" and l: "fed ?st = length ?m"
    by simp_all
  from absorb_append [OF a]
  have "absorb (chain ?st) (pending ?st @ padding (fed ?st)) =
          absorb H256_init (?m @ padding (fed ?st))"
    by simp
  with l show ?thesis
    by (simp add: sha256_hexdigest_def sha256_hex_def)
qed

lemma hex_digit_lower: "hex_digit n \<in> set ''0123456789abcdef''"
proof -
  have "n mod 16 < length ''0123456789abcdef''" by simp
  then show ?thesis unfolding hex_digit_def by (rule nth_mem)
qed

lemma hex_word_format: "length (hex_word w) = 8 \<and> set (hex_word w) \<subseteq> set ''0123456789abcdef''"
  using hex_digit_lower by (simp add: hex_word_def)

lemma hex_hash_format: "length (hex_hash hv) = 64 \<and> set (hex_hash hv) \<subseteq> set ''0123456789abcdef''"
proof (cases hv rule: hex_hash.cases)
  case (1 a b c d e f g h)
  show ?thesis unfolding 1 hex_hash.simps using hex_word_format by (simp add: subset_iff)
qed

lemma sha256_hex_format:
  "length (sha256_hex msg) = 64 \<and> set (sha256_hex msg) \<subseteq> set ''0123456789abcdef''"
  unfolding sha256_hex_def by (rule hex_hash_format)

text \<open>
  Test vectors, computed step by step (the padded input, the compression of each
  block, the rendering): the digest of the empty input, and the one-block and the
  two-block message of the examples of FIPS 180-4.
\<close>

lemma replicate_numeral: "replicate (numeral k) x = x # replicate (pred_numeral k) x"
  by (simp add: numeral_eq_Suc)

lemma sha256_hexdigest_new:
  "sha256_hexdigest sha256_new =
     ''e3b0c44298fc1c149afbf4c8996fb92427ae41e4649b934ca495991b7852b855''"
proof -
  have input: "pending sha256_new @ padding (fed sha256_new) =
     [0x80, 0x00, 0x00, 0x00, 0x00, 0x00, 0x00, 0x00, 0x00, 0x00, 0x00, 0x00, 0x00,
     0x00, 0x00, 0x00, 0x00, 0x00, 0x00, 0x00, 0x00, 0x00, 0x00, 0x00, 0x00, 0x00,
     0x00, 0x00, 0x00, 0x00, 0x00, 0x00, 0x00, 0x00, 0x00, 0x00, 0x00, 0x00, 0x00,
     0x00, 0x00, 0x00, 0x00, 0x00, 0x00, 0x00, 0x00, 0x00, 0x00, 0x00, 0x00, 0x00,
     0x00, 0x00, 0x00, 0x00, 0x00, 0x00, 0x00, 0x00, 0x00, 0x00, 0x00, 0x00]"
    by (simp add: sha256_new_def padding_def length_bytes_def replicate_numeral)
  have block1: "compress
      H256_init
      [0x80, 0x00, 0x00, 0x00, 0x00, 0x00, 0x00, 0x00, 0x00, 0x00, 0x00, 0x00, 0x00,
      0x00, 0x00, 0x00, 0x00, 0x00, 0x00, 0x00, 0x00, 0x00, 0x00, 0x00, 0x00, 0x00,
      0x00, 0x00, 0x00, 0x00, 0x00, 0x00, 0x00, 0x00, 0x00, 0x00, 0x00, 0x00, 0x00,
      0x00, 0x00, 0x00, 0x00, 0x00, 0x00, 0x00, 0x00, 0x00, 0x00, 0x00, 0x00, 0x00,
      0x00, 0x00, 0x00, 0x00, 0x00, 0x00, 0x00, 0x00, 0x00, 0x00, 0x00, 0x00] =
     (0xE3B0C442, 0x98FC1C14, 0x9AFBF4C8, 0x996FB924, 0x27AE41E4, 0x649B934C,
     0xA495991B, 0x7852B855)"
    by (simp add: H256_init_def compress_def K256_def Ch_def Maj_def bsig0_def bsig1_def ssig0_def ssig1_def
        rotr_def shr_def add32_def not32_def)
  have "absorb (chain sha256_new) (pending sha256_new @ padding (fed sha256_new)) =
     ((0xE3B0C442, 0x98FC1C14, 0x9AFBF4C8, 0x996FB924, 0x27AE41E4, 0x649B934C,
     0xA495991B, 0x7852B855), [])"
    unfolding input by (simp add: sha256_new_def absorb_block absorb_short block1 del: One_nat_def)
  then show ?thesis
    unfolding sha256_hexdigest_def by (simp add: hex_word_def hex_digit_def)
qed

lemma sha256_hex_abc:
  "sha256_hex ''abc'' =
     ''ba7816bf8f01cfea414140de5dae2223b00361a396177a9cb410ff61f20015ad''"
proof -
  have input: "map of_char ''abc'' @ padding (length ''abc'') =
     [0x61, 0x62, 0x63, 0x80, 0x00, 0x00, 0x00, 0x00, 0x00, 0x00, 0x00, 0x00, 0x00,
     0x00, 0x00, 0x00, 0x00, 0x00, 0x00, 0x00, 0x00, 0x00, 0x00, 0x00, 0x00, 0x00,
     0x00, 0x00, 0x00, 0x00, 0x00, 0x00, 0x00, 0x00, 0x00, 0x00, 0x00, 0x00, 0x00,
     0x00, 0x00, 0x00, 0x00, 0x00, 0x00, 0x00, 0x00, 0x00, 0x00, 0x00, 0x00, 0x00,
     0x00, 0x00, 0x00, 0x00, 0x00, 0x00, 0x00, 0x00, 0x00, 0x00, 0x00, 0x18]"
    by (simp add: padding_def length_bytes_def replicate_numeral)
  have block1: "compress
      H256_init
      [0x61, 0x62, 0x63, 0x80, 0x00, 0x00, 0x00, 0x00, 0x00, 0x00, 0x00, 0x00, 0x00,
      0x00, 0x00, 0x00, 0x00, 0x00, 0x00, 0x00, 0x00, 0x00, 0x00, 0x00, 0x00, 0x00,
      0x00, 0x00, 0x00, 0x00, 0x00, 0x00, 0x00, 0x00, 0x00, 0x00, 0x00, 0x00, 0x00,
      0x00, 0x00, 0x00, 0x00, 0x00, 0x00, 0x00, 0x00, 0x00, 0x00, 0x00, 0x00, 0x00,
      0x00, 0x00, 0x00, 0x00, 0x00, 0x00, 0x00, 0x00, 0x00, 0x00, 0x00, 0x18] =
     (0xBA7816BF, 0x8F01CFEA, 0x414140DE, 0x5DAE2223, 0xB00361A3, 0x96177A9C,
     0xB410FF61, 0xF20015AD)"
    by (simp add: H256_init_def compress_def K256_def Ch_def Maj_def bsig0_def bsig1_def ssig0_def ssig1_def
        rotr_def shr_def add32_def not32_def)
  have "absorb H256_init (map of_char ''abc'' @ padding (length ''abc'')) =
     ((0xBA7816BF, 0x8F01CFEA, 0x414140DE, 0x5DAE2223, 0xB00361A3, 0x96177A9C,
     0xB410FF61, 0xF20015AD), [])"
    unfolding input by (simp add: absorb_block absorb_short block1 del: One_nat_def)
  then show ?thesis
    unfolding sha256_hex_def by (simp add: hex_word_def hex_digit_def)
qed

lemma sha256_hex_two_blocks:
  "sha256_hex ''abcdbcdecdefdefgefghfghighijhijkijkljklmklmnlmnomnopnopq'' =
     ''248d6a61d20638b8e5c026930c3e6039a33ce45964ff2167f6ecedd419db06c1''"
proof -
  have input: "map of_char ''abcdbcdecdefdefgefghfghighijhijkijkljklmklmnlmnomnopnopq'' @ padding (length ''abcdbcdecdefdefgefghfghighijhijkijkljklmklmnlmnomnopnopq'') =
     [0x61, 0x62, 0x63, 0x64, 0x62, 0x63, 0x64, 0x65, 0x63, 0x64, 0x65, 0x66, 0x64,
     0x65, 0x66, 0x67, 0x65, 0x66, 0x67, 0x68, 0x66, 0x67, 0x68, 0x69, 0x67, 0x68,
     0x69, 0x6A, 0x68, 0x69, 0x6A, 0x6B, 0x69, 0x6A, 0x6B, 0x6C, 0x6A, 0x6B, 0x6C,
     0x6D, 0x6B, 0x6C, 0x6D, 0x6E, 0x6C, 0x6D, 0x6E, 0x6F, 0x6D, 0x6E, 0x6F, 0x70,
     0x6E, 0x6F, 0x70, 0x71, 0x80, 0x00, 0x00, 0x00, 0x00, 0x00, 0x00, 0x00, 0x00,
     0x00, 0x00, 0x00, 0x00, 0x00, 0x00, 0x00, 0x00, 0x00, 0x00, 0x00, 0x00, 0x00,
     0x00, 0x00, 0x00, 0x00, 0x00, 0x00, 0x00, 0x00, 0x00, 0x00, 0x00, 0x00, 0x00,
     0x00, 0x00, 0x00, 0x00, 0x00, 0x00, 0x00, 0x00, 0x00, 0x00, 0x00, 0x00, 0x00,
     0x00, 0x00, 0x00, 0x00, 0x00, 0x00, 0x00, 0x00, 0x00, 0x00, 0x00, 0x00, 0x00,
     0x00, 0x00, 0x00, 0x00, 0x00, 0x00, 0x00, 0x00, 0x00, 0x01, 0xC0]"
    by (simp add: padding_def length_bytes_def replicate_numeral)
  have block1: "compress
      H256_init
      [0x61, 0x62, 0x63, 0x64, 0x62, 0x63, 0x64, 0x65, 0x63, 0x64, 0x65, 0x66, 0x64,
      0x65, 0x66, 0x67, 0x65, 0x66, 0x67, 0x68, 0x66, 0x67, 0x68, 0x69, 0x67, 0x68,
      0x69, 0x6A, 0x68, 0x69, 0x6A, 0x6B, 0x69, 0x6A, 0x6B, 0x6C, 0x6A, 0x6B, 0x6C,
      0x6D, 0x6B, 0x6C, 0x6D, 0x6E, 0x6C, 0x6D, 0x6E, 0x6F, 0x6D, 0x6E, 0x6F, 0x70,
      0x6E, 0x6F, 0x70, 0x71, 0x80, 0x00, 0x00, 0x00, 0x00, 0x00, 0x00, 0x00] =
     (0x85E655D6, 0x417A1795, 0x3363376A, 0x624CDE5C, 0x76E09589, 0xCAC5F811,
     0xCC4B32C1, 0xF20E533A)"
    by (simp add: H256_init_def compress_def K256_def Ch_def Maj_def bsig0_def bsig1_def ssig0_def ssig1_def
        rotr_def shr_def add32_def not32_def)
  have block2: "compress
      (0x85E655D6, 0x417A1795, 0x3363376A, 0x624CDE5C, 0x76E09589, 0xCAC5F811,
       0xCC4B32C1, 0xF20E533A)
      [0x00, 0x00, 0x00, 0x00, 0x00, 0x00, 0x00, 0x00, 0x00, 0x00, 0x00, 0x00, 0x00,
      0x00, 0x00, 0x00, 0x00, 0x00, 0x00, 0x00, 0x00, 0x00, 0x00, 0x00, 0x00, 0x00,
      0x00, 0x00, 0x00, 0x00, 0x00, 0x00, 0x00, 0x00, 0x00, 0x00, 0x00, 0x00, 0x00,
      0x00, 0x00, 0x00, 0x00, 0x00, 0x00, 0x00, 0x00, 0x00, 0x00, 0x00, 0x00, 0x00,
      0x00, 0x00, 0x00, 0x00, 0x00, 0x00, 0x00, 0x00, 0x00, 0x00, 0x01, 0xC0] =
     (0x248D6A61, 0xD20638B8, 0xE5C02693, 0x0C3E6039, 0xA33CE459, 0x64FF2167,
     0xF6ECEDD4, 0x19DB06C1)"
    by (simp add: compress_def K256_def Ch_def Maj_def bsig0_def bsig1_def ssig0_def ssig1_def
        rotr_def shr_def add32_def not32_def)
  have "absorb H256_init (map of_char ''abcdbcdecdefdefgefghfghighijhijkijkljklmklmnlmnomnopnopq'' @ padding (length ''abcdbcdecdefdefgefghfghighijhijkijkljklmklmnlmnomnopnopq'')) =
     ((0x248D6A61, 0xD20638B8, 0xE5C02693, 0x0C3E6039, 0xA33CE459, 0x64FF2167,
     0xF6ECEDD4, 0x19DB06C1), [])"
    unfolding input by (simp add: absorb_block absorb_short block1 block2 del: One_nat_def)
  then show ?thesis
    unfolding sha256_hex_def by (simp add: hex_word_def hex_digit_def)
qed

section \<open>Redaction and encoding\<close>

lemma redact_fields_complete:
  "set ks \<subseteq> fst ` set event \<Longrightarrow>
     redact_fields ks event = Inr (map (\<lambda>k. (k, the (map_of event k))) ks)"
proof (induction ks)
  case Nil
  then show ?case by simp
next
  case (Cons k ks)
  then have "k \<in> fst ` set event" by simp
  then obtain v where "map_of event k = Some v"
    by (cases "map_of event k") (simp_all add: map_of_eq_None_iff)
  with Cons show ?case by simp
qed

lemma redact_event_complete:
  "V1_FIELDS \<subseteq> fst ` set event \<Longrightarrow> redact_event event = Inr (projection event)"
  by (simp add: redact_event_def projection_def redact_fields_complete V1_FIELDS_iter_set)

lemma projection_keys: "map fst (projection event) = V1_FIELDS_iter"
  by (simp add: projection_def comp_def)

lemma projection_key_set: "fst ` set (projection event) = V1_FIELDS"
  using projection_keys [of event] V1_FIELDS_iter_set
  by (metis set_map)

lemma map_of_tabulate:
  "k \<in> set ks \<Longrightarrow> map_of (map (\<lambda>k. (k, f k)) ks) k = Some (f k)"
  by (induction ks) auto

lemma projection_lookup:
  assumes "V1_FIELDS \<subseteq> fst ` set event" and "k \<in> V1_FIELDS"
  shows "map_of (projection event) k = map_of event k"
proof -
  from required_key_lookup [OF assms] obtain v where v: "map_of event k = Some v" by blast
  from assms(2) have "k \<in> set V1_FIELDS_iter" by (simp add: V1_FIELDS_iter_set)
  then have "map_of (projection event) k = Some (the (map_of event k))"
    unfolding projection_def by (rule map_of_tabulate)
  with v show ?thesis by simp
qed

lemma check_event_ok_keys:
  assumes "check_event event = Inr ()"
  shows "V1_FIELDS \<subseteq> fst ` set event"
proof (rule ccontr)
  assume "\<not> V1_FIELDS \<subseteq> fst ` set event"
  from check_event_incomplete [OF this] assms show False
    by (simp split: option.splits)
qed

lemma check_event_ok_iff:
  "check_event event = Inr () \<longleftrightarrow>
     V1_FIELDS \<subseteq> fst ` set event
     \<and> map_of event ''confirmation_status'' \<in> {Some (JStr ''CONFIRMED''), Some (JStr ''FAILED'')}"
proof
  assume ok: "check_event event = Inr ()"
  then have k: "V1_FIELDS \<subseteq> fst ` set event" by (rule check_event_ok_keys)
  from check_event_complete [OF k] ok show "V1_FIELDS \<subseteq> fst ` set event
     \<and> map_of event ''confirmation_status'' \<in> {Some (JStr ''CONFIRMED''), Some (JStr ''FAILED'')}"
    using k by (auto split: if_splits)
next
  assume a: "V1_FIELDS \<subseteq> fst ` set event
     \<and> map_of event ''confirmation_status'' \<in> {Some (JStr ''CONFIRMED''), Some (JStr ''FAILED'')}"
  then have k: "V1_FIELDS \<subseteq> fst ` set event" by simp
  from check_event_complete [OF k] a show "check_event event = Inr ()"
    by auto
qed

lemma canonical_bytes_complete:
  "V1_FIELDS \<subseteq> fst ` set event \<Longrightarrow>
     canonical_bytes event = binary_encode (JDict (projection event))"
  by (simp add: canonical_bytes_def redact_event_complete)

lemma those_None_iff: "those xs = None \<longleftrightarrow> None \<in> set xs"
  by (induction xs) (auto split: option.splits)

lemma those_map_None_iff: "those (map f xs) = None \<longleftrightarrow> (\<exists>x \<in> set xs. f x = None)"
  by (induction xs) (auto split: option.splits)

text \<open>The encoder refuses exactly the values that hold a floating-point number or
  \<^verbatim>\<open>null\<close> somewhere inside.\<close>

lemma binary_encode_None_iff: "binary_encode v = None \<longleftrightarrow> has_float v \<or> has_null v"
proof (induction v)
  case (JList xs)
  have "binary_encode (JList xs) = None \<longleftrightarrow> (\<exists>x \<in> set xs. binary_encode x = None)"
    by (simp add: those_map_None_iff)
  also have "\<dots> \<longleftrightarrow> (\<exists>x \<in> set xs. has_float x \<or> has_null x)"
    using JList by blast
  finally show ?case by auto
next
  case (JDict kvs)
  have "binary_encode (JDict kvs) = None \<longleftrightarrow>
          (\<exists>kv \<in> set kvs. binary_encode (snd kv) = None)"
    by (simp add: those_map_None_iff split_beta)
  also have "\<dots> \<longleftrightarrow> (\<exists>kv \<in> set kvs. has_float (snd kv) \<or> has_null (snd kv))"
  proof -
    have "binary_encode (snd kv) = None \<longleftrightarrow> has_float (snd kv) \<or> has_null (snd kv)"
      if "kv \<in> set kvs" for kv
    proof -
      have "snd kv \<in> Basic_BNFs.snds kv" by (cases kv) (simp add: snds.simps)
      with that show ?thesis by (rule JDict)
    qed
    then show ?thesis by blast
  qed
  finally show ?case by (auto simp add: split_beta)
qed simp_all

lemma binary_encode_float: "has_float v \<Longrightarrow> binary_encode v = None"
  by (simp only: binary_encode_None_iff simp_thms)

lemma binary_encode_null: "has_null v \<Longrightarrow> binary_encode v = None"
  by (simp only: binary_encode_None_iff simp_thms)

declare binary_encode.simps [simp del]

lemma has_float_projection:
  "has_float (JDict (projection event)) \<longleftrightarrow>
     (\<exists>k \<in> V1_FIELDS. has_float (the (map_of event k)))"
  by (auto simp add: projection_def V1_FIELDS_iter_set)

lemma has_null_projection:
  "has_null (JDict (projection event)) \<longleftrightarrow>
     (\<exists>k \<in> V1_FIELDS. has_null (the (map_of event k)))"
  by (auto simp add: projection_def V1_FIELDS_iter_set)

section \<open>The loop\<close>

lemma anchor_loop_Cons_invalid:
  "check_event ev = Inl e \<Longrightarrow> anchor_loop (ev # evs) h = (h, Some e)"
  by simp

lemma anchor_loop_Cons_refused:
  assumes "check_event ev = Inr ()" and "canonical_bytes ev = None"
  shows "anchor_loop (ev # evs) h = (h, Some EncodingError)"
proof -
  from assms(1) have "redact_event ev = Inr (projection ev)"
    by (simp add: check_event_ok_keys redact_event_complete)
  with assms show ?thesis by (simp add: canonical_bytes_def)
qed

lemma anchor_loop_Cons_fed:
  assumes "check_event ev = Inr ()" and "canonical_bytes ev = Some b"
  shows "anchor_loop (ev # evs) h = anchor_loop evs (sha256_update h b)"
proof -
  from assms(1) have "redact_event ev = Inr (projection ev)"
    by (simp add: check_event_ok_keys redact_event_complete)
  with assms show ?thesis by (simp add: canonical_bytes_def)
qed

lemma anchor_loop_prefix:
  assumes "\<forall>e \<in> set pre. check_event e = Inr () \<and> canonical_bytes e \<noteq> None"
  shows "anchor_loop (pre @ rest) h =
           anchor_loop rest (foldl sha256_update h (map (\<lambda>e. the (canonical_bytes e)) pre))"
  using assms
proof (induction pre arbitrary: h)
  case Nil
  then show ?case by simp
next
  case (Cons ev pre)
  then obtain b where b: "canonical_bytes ev = Some b" and ok: "check_event ev = Inr ()"
    by auto
  from Cons.prems have "\<forall>e \<in> set pre. check_event e = Inr () \<and> canonical_bytes e \<noteq> None"
    by simp
  from Cons.IH [OF this] anchor_loop_Cons_fed [OF ok b] b show ?case by simp
qed

lemma anchor_loop_error:
  assumes "\<exists>e \<in> set events. check_event e \<noteq> Inr () \<or> canonical_bytes e = None"
  shows "\<exists>h' err. anchor_loop events h = (h', Some err)"
  using assms
proof (induction events arbitrary: h)
  case Nil
  then show ?case by simp
next
  case (Cons ev events)
  show ?case
  proof (cases "check_event ev")
    case (Inl e)
    then show ?thesis by simp
  next
    case (Inr u)
    then have ok: "check_event ev = Inr ()" by simp
    show ?thesis
    proof (cases "canonical_bytes ev")
      case None
      with anchor_loop_Cons_refused [OF ok] show ?thesis by simp
    next
      case (Some b)
      with Cons.prems ok
      have "\<exists>e \<in> set events. check_event e \<noteq> Inr () \<or> canonical_bytes e = None" by auto
      from Cons.IH [OF this] anchor_loop_Cons_fed [OF ok Some] show ?thesis by simp
    qed
  qed
qed

lemma anchor_events_all_fed:
  assumes "\<forall>e \<in> set events. check_event e = Inr () \<and> canonical_bytes e \<noteq> None"
  shows "anchor_loop events sha256_new =
           (foldl sha256_update sha256_new (map (\<lambda>e. the (canonical_bytes e)) events), None)"
    and "anchor_events events =
           Inr (sha256_hex (concat (map (\<lambda>e. the (canonical_bytes e)) events)))"
proof -
  from anchor_loop_prefix [OF assms, of "[]" sha256_new]
  show l: "anchor_loop events sha256_new =
           (foldl sha256_update sha256_new (map (\<lambda>e. the (canonical_bytes e)) events), None)"
    by simp
  show "anchor_events events =
           Inr (sha256_hex (concat (map (\<lambda>e. the (canonical_bytes e)) events)))"
    unfolding anchor_events_def l by (simp add: sha256_streaming)
qed

lemma sample_event_valid:
  "check_event (sample_event ident (JStr ''CONFIRMED'') attrs) = Inr ()"
  "check_event (sample_event ident (JStr ''FAILED'') attrs) = Inr ()"
  by (simp_all add: check_event_ok_iff sample_event_keys sample_event_status)

lemma sample_event_pending:
  "check_event (sample_event ident (JStr ''PENDING'') attrs) =
     Inl (SimpleHashPendingEventFound ident (JStr ''PENDING''))"
  using check_event_complete [of "sample_event ident (JStr ''PENDING'') attrs"]
  by (simp add: sample_event_keys sample_event_identity sample_event_status)

lemma sample_event_float:
  "has_float attrs \<Longrightarrow>
     canonical_bytes (sample_event ident status attrs) = None"
proof -
  assume "has_float attrs"
  then have "\<exists>k \<in> V1_FIELDS. has_float (the (map_of (sample_event ident status attrs) k))"
    by (simp add: V1_FIELDS_def sample_event_def)
  then have "has_float (JDict (projection (sample_event ident status attrs)))"
    by (simp only: has_float_projection)
  then have "binary_encode (JDict (projection (sample_event ident status attrs))) = None"
    by (rule binary_encode_float)
  then show ?thesis
    by (simp add: canonical_bytes_complete sample_event_keys)
qed

lemma sample_event_null:
  "has_null attrs \<Longrightarrow>
     canonical_bytes (sample_event ident status attrs) = None"
proof -
  assume "has_null attrs"
  then have "\<exists>k \<in> V1_FIELDS. has_null (the (map_of (sample_event ident status attrs) k))"
    by (simp add: V1_FIELDS_def sample_event_def)
  then have "has_null (JDict (projection (sample_event ident status attrs)))"
    by (simp only: has_null_projection)
  then have "binary_encode (JDict (projection (sample_event ident status attrs))) = None"
    by (rule binary_encode_null)
  then show ?thesis
    by (simp add: canonical_bytes_complete sample_event_keys)
qed

lemma sample_event_bytes_e1:
  "binary_encode (JDict (projection (sample_event (JStr ''e1'') (JStr ''CONFIRMED'') (JDict [])))) =
     Some (''d16:asset_attributesd16:arc_display_name4:doore14:asset_identity9:assets/a19:behavio'' @
       ''ur14:RecordEvidence19:confirmation_status9:CONFIRMED16:event_attributesde4:from4:0x0'' @
       ''18:identity2:e19:operation6:Record18:principal_acceptedd6:issuer3:idpe18:principal_d'' @
       ''eclaredd6:issuer3:idpe15:tenant_identity9:tenant/t118:timestamp_accepted20:2023-01-0'' @
       ''1T00:00:01Z19:timestamp_committed20:2023-01-01T00:00:02Z18:timestamp_declared20:2023'' @
       ''-01-01T00:00:00Ze'')"
  by (simp add: projection_def V1_FIELDS_iter_def sample_event_def
        binary_encode.simps encode_bytes_def str_nat.simps digit_char_def)

lemma sample_event_bytes_e2:
  "binary_encode (JDict (projection (sample_event (JStr ''e2'') (JStr ''FAILED'') (JDict [])))) =
     Some (''d16:asset_attributesd16:arc_display_name4:doore14:asset_identity9:assets/a19:behavio'' @
       ''ur14:RecordEvidence19:confirmation_status6:FAILED16:event_attributesde4:from4:0x018:'' @
       ''identity2:e29:operation6:Record18:principal_acceptedd6:issuer3:idpe18:principal_decl'' @
       ''aredd6:issuer3:idpe15:tenant_identity9:tenant/t118:timestamp_accepted20:2023-01-01T0'' @
       ''0:00:01Z19:timestamp_committed20:2023-01-01T00:00:02Z18:timestamp_declared20:2023-01'' @
       ''-01T00:00:00Ze'')"
  by (simp add: projection_def V1_FIELDS_iter_def sample_event_def
        binary_encode.simps encode_bytes_def str_nat.simps digit_char_def)

section \<open>The anchor of a sequence of events\<close>

text \<open>
  C1, as amended. For every finite sequence of events that each contain all 14 required
  fields, have confirmation status \<^verbatim>\<open>CONFIRMED\<close> or \<^verbatim>\<open>FAILED\<close> and whose
  projection onto the 14 fields the encoder accepts, the loop feeds the encodings of
  the projections in order to one hash object, and \<^verbatim>\<open>anchor_events\<close> returns the
  SHA-256 digest, in hexadecimal, of their concatenation. (The digest is 64 lowercase
  hexadecimal characters: \<open>sha256_hex_format\<close>. The encoder refuses a projection
  exactly when a floating-point value or \<^verbatim>\<open>null\<close> occurs somewhere inside one of the
  14 fields: \<open>binary_encode_None_iff\<close>, \<open>has_float_projection\<close>,
  \<open>has_null_projection\<close>.)
\<close>

theorem anchor_events_digest:
  assumes "\<forall>e \<in> set events.
             V1_FIELDS \<subseteq> fst ` set e
           \<and> map_of e ''confirmation_status'' \<in> {Some (JStr ''CONFIRMED''), Some (JStr ''FAILED'')}
           \<and> binary_encode (JDict (projection e)) \<noteq> None"
  shows "\<exists>chunks.
           map (\<lambda>e. binary_encode (JDict (projection e))) events = map Some chunks
         \<and> anchor_loop events sha256_new = (foldl sha256_update sha256_new chunks, None)
         \<and> anchor_events events = Inr (sha256_hex (concat chunks))
         \<and> (\<forall>e \<in> set events. fst ` set (projection e) = V1_FIELDS
               \<and> (\<forall>k \<in> V1_FIELDS. map_of (projection e) k = map_of e k))"
proof -
  let ?chunks = "map (\<lambda>e. the (canonical_bytes e)) events"
  have each: "check_event e = Inr () \<and> canonical_bytes e \<noteq> None
              \<and> canonical_bytes e = binary_encode (JDict (projection e))"
    if "e \<in> set events" for e
  proof -
    from that assms have k: "V1_FIELDS \<subseteq> fst ` set e"
      and s: "map_of e ''confirmation_status'' \<in> {Some (JStr ''CONFIRMED''), Some (JStr ''FAILED'')}"
      and f: "binary_encode (JDict (projection e)) \<noteq> None"
      by blast+
    from k s have "check_event e = Inr ()" by (simp add: check_event_ok_iff)
    with f show ?thesis using k by (simp add: canonical_bytes_complete)
  qed
  then have ok: "\<forall>e \<in> set events. check_event e = Inr () \<and> canonical_bytes e \<noteq> None"
    by blast
  have "binary_encode (JDict (projection e)) = Some (the (canonical_bytes e))"
    if "e \<in> set events" for e
    using each [OF that] by (metis option.collapse)
  then have "map (\<lambda>e. binary_encode (JDict (projection e))) events = map Some ?chunks"
    by simp
  moreover note anchor_events_all_fed [OF ok]
  moreover have "\<forall>e \<in> set events. fst ` set (projection e) = V1_FIELDS
               \<and> (\<forall>k \<in> V1_FIELDS. map_of (projection e) k = map_of e k)"
    using assms by (simp add: projection_key_set projection_lookup)
  ultimately show ?thesis by blast
qed

text \<open>The theorem at two sample events, with the bytes that are hashed written out.\<close>

theorem anchor_events_digest_witness:
  "V1_FIELDS \<subseteq> fst ` set (sample_event (JStr ''e1'') (JStr ''CONFIRMED'') (JDict []))
   \<and> map_of (sample_event (JStr ''e1'') (JStr ''CONFIRMED'') (JDict [])) ''confirmation_status''
       \<in> {Some (JStr ''CONFIRMED''), Some (JStr ''FAILED'')}
   \<and> binary_encode (JDict (projection (sample_event (JStr ''e1'') (JStr ''CONFIRMED'') (JDict []))))
       \<noteq> None
   \<and> V1_FIELDS \<subseteq> fst ` set (sample_event (JStr ''e2'') (JStr ''FAILED'') (JDict []))
   \<and> map_of (sample_event (JStr ''e2'') (JStr ''FAILED'') (JDict [])) ''confirmation_status''
       \<in> {Some (JStr ''CONFIRMED''), Some (JStr ''FAILED'')}
   \<and> binary_encode (JDict (projection (sample_event (JStr ''e2'') (JStr ''FAILED'') (JDict []))))
       \<noteq> None
   \<and> anchor_events [sample_event (JStr ''e1'') (JStr ''CONFIRMED'') (JDict []),
                     sample_event (JStr ''e2'') (JStr ''FAILED'') (JDict [])] =
       Inr (sha256_hex
         (''d16:asset_attributesd16:arc_display_name4:doore14:asset_identity9:assets/a19:behavio'' @
           ''ur14:RecordEvidence19:confirmation_status9:CONFIRMED16:event_attributesde4:from4:0x0'' @
           ''18:identity2:e19:operation6:Record18:principal_acceptedd6:issuer3:idpe18:principal_d'' @
           ''eclaredd6:issuer3:idpe15:tenant_identity9:tenant/t118:timestamp_accepted20:2023-01-0'' @
           ''1T00:00:01Z19:timestamp_committed20:2023-01-01T00:00:02Z18:timestamp_declared20:2023'' @
           ''-01-01T00:00:00Ze'' @
          ''d16:asset_attributesd16:arc_display_name4:doore14:asset_identity9:assets/a19:behavio'' @
           ''ur14:RecordEvidence19:confirmation_status6:FAILED16:event_attributesde4:from4:0x018:'' @
           ''identity2:e29:operation6:Record18:principal_acceptedd6:issuer3:idpe18:principal_decl'' @
           ''aredd6:issuer3:idpe15:tenant_identity9:tenant/t118:timestamp_accepted20:2023-01-01T0'' @
           ''0:00:01Z19:timestamp_committed20:2023-01-01T00:00:02Z18:timestamp_declared20:2023-01'' @
           ''-01T00:00:00Ze''))"
proof -
  let ?e1 = "sample_event (JStr ''e1'') (JStr ''CONFIRMED'') (JDict [])"
  let ?e2 = "sample_event (JStr ''e2'') (JStr ''FAILED'') (JDict [])"
  have f: "binary_encode (JDict (projection ?e1)) \<noteq> None"
    "binary_encode (JDict (projection ?e2)) \<noteq> None"
    by (simp_all only: sample_event_bytes_e1 sample_event_bytes_e2 option.distinct
          not_False_eq_True)
  then have h: "\<forall>e \<in> set [?e1, ?e2].
        V1_FIELDS \<subseteq> fst ` set e
      \<and> map_of e ''confirmation_status'' \<in> {Some (JStr ''CONFIRMED''), Some (JStr ''FAILED'')}
      \<and> binary_encode (JDict (projection e)) \<noteq> None"
    by (simp add: sample_event_keys sample_event_status)
  from anchor_events_digest [OF h] obtain chunks where
    c: "map (\<lambda>e. binary_encode (JDict (projection e))) [?e1, ?e2] = map Some chunks" and
    d: "anchor_events [?e1, ?e2] = Inr (sha256_hex (concat chunks))"
    by blast
  from c obtain b1 b2 where "chunks = [b1, b2]"
    and "binary_encode (JDict (projection ?e1)) = Some b1"
    and "binary_encode (JDict (projection ?e2)) = Some b2"
    by (auto simp add: Cons_eq_map_conv)
  with d have "anchor_events [?e1, ?e2] =
       Inr (sha256_hex
         (the (binary_encode (JDict (projection ?e1))) @
          the (binary_encode (JDict (projection ?e2)))))"
    by simp
  then have "anchor_events [?e1, ?e2] =
       Inr (sha256_hex
         (''d16:asset_attributesd16:arc_display_name4:doore14:asset_identity9:assets/a19:behavio'' @
           ''ur14:RecordEvidence19:confirmation_status9:CONFIRMED16:event_attributesde4:from4:0x0'' @
           ''18:identity2:e19:operation6:Record18:principal_acceptedd6:issuer3:idpe18:principal_d'' @
           ''eclaredd6:issuer3:idpe15:tenant_identity9:tenant/t118:timestamp_accepted20:2023-01-0'' @
           ''1T00:00:01Z19:timestamp_committed20:2023-01-01T00:00:02Z18:timestamp_declared20:2023'' @
           ''-01-01T00:00:00Ze'' @
          ''d16:asset_attributesd16:arc_display_name4:doore14:asset_identity9:assets/a19:behavio'' @
           ''ur14:RecordEvidence19:confirmation_status6:FAILED16:event_attributesde4:from4:0x018:'' @
           ''identity2:e29:operation6:Record18:principal_acceptedd6:issuer3:idpe18:principal_decl'' @
           ''aredd6:issuer3:idpe15:tenant_identity9:tenant/t118:timestamp_accepted20:2023-01-01T0'' @
           ''0:00:01Z19:timestamp_committed20:2023-01-01T00:00:02Z18:timestamp_declared20:2023-01'' @
           ''-01T00:00:00Ze''))"
    by (simp add: sample_event_bytes_e1 sample_event_bytes_e2)
  with f show ?thesis by (simp add: sample_event_keys sample_event_status)
qed

text \<open>C1 as stated fails: an event with all 14 fields and status \<^verbatim>\<open>CONFIRMED\<close> whose
  \<^verbatim>\<open>event_attributes\<close> hold the floating-point number 2.5 makes \<^verbatim>\<open>anchor_events\<close>
  raise the encoder's exception; no digest is returned.\<close>

theorem anchor_events_digest_counterexample:
  "V1_FIELDS \<subseteq> fst ` set (sample_event (JStr ''e1'') (JStr ''CONFIRMED'') (JDict [(''weight'', JFloat 5 (- 1))]))
   \<and> map_of (sample_event (JStr ''e1'') (JStr ''CONFIRMED'') (JDict [(''weight'', JFloat 5 (- 1))]))
        ''confirmation_status'' = Some (JStr ''CONFIRMED'')
   \<and> anchor_events [sample_event (JStr ''e1'') (JStr ''CONFIRMED'') (JDict [(''weight'', JFloat 5 (- 1))])] =
       Inl EncodingError"
proof -
  have "has_float (JDict [(''weight'', JFloat 5 (- 1))])" by simp
  then have "canonical_bytes (sample_event (JStr ''e1'') (JStr ''CONFIRMED'') (JDict [(''weight'', JFloat 5 (- 1))])) = None"
    by (rule sample_event_float)
  from anchor_loop_Cons_refused [OF sample_event_valid(1) this]
  show ?thesis
    by (simp add: anchor_events_def sample_event_keys sample_event_status)
qed

text \<open>The same with \<^verbatim>\<open>null\<close> in place of the number: an event with all 14 fields,
  status \<^verbatim>\<open>CONFIRMED\<close> and no floating-point value, whose \<^verbatim>\<open>event_attributes\<close>
  hold \<^verbatim>\<open>null\<close>, makes \<^verbatim>\<open>anchor_events\<close> raise the encoder's exception as well.\<close>

lemma anchor_events_null_refused:
  "V1_FIELDS \<subseteq> fst ` set (sample_event (JStr ''e1'') (JStr ''CONFIRMED'') (JDict [(''note'', JNull)]))
   \<and> map_of (sample_event (JStr ''e1'') (JStr ''CONFIRMED'') (JDict [(''note'', JNull)]))
        ''confirmation_status'' = Some (JStr ''CONFIRMED'')
   \<and> \<not> has_float (JDict (projection
          (sample_event (JStr ''e1'') (JStr ''CONFIRMED'') (JDict [(''note'', JNull)]))))
   \<and> anchor_events [sample_event (JStr ''e1'') (JStr ''CONFIRMED'') (JDict [(''note'', JNull)])] =
       Inl EncodingError"
proof -
  let ?ev = "sample_event (JStr ''e1'') (JStr ''CONFIRMED'') (JDict [(''note'', JNull)])"
  have "has_null (JDict [(''note'', JNull)])" by simp
  then have "canonical_bytes ?ev = None"
    by (rule sample_event_null)
  from anchor_loop_Cons_refused [OF sample_event_valid(1) this]
  have "anchor_events [?ev] = Inl EncodingError"
    by (simp add: anchor_events_def)
  moreover have "\<not> has_float (JDict (projection ?ev))"
    unfolding has_float_projection by (simp add: V1_FIELDS_def sample_event_def)
  ultimately show ?thesis
    by (simp add: sample_event_keys sample_event_status)
qed

text \<open>
  C2, as amended. For the empty sequence of events \<^verbatim>\<open>anchor_events\<close> returns the
  SHA-256 digest of the empty input, which is
  \<^verbatim>\<open>e3b0c44298fc1c149afbf4c8996fb92427ae41e4649b934ca495991b7852b855\<close>.
\<close>

theorem anchor_events_empty:
  "anchor_events [] = Inr ''e3b0c44298fc1c149afbf4c8996fb92427ae41e4649b934ca495991b7852b855''"
  by (simp add: anchor_events_def sha256_hexdigest_new)

text \<open>C2 as stated fails on the literal: the string of the specification has 63
  characters, the last \<^verbatim>\<open>5\<close> of the digest is missing.\<close>

theorem anchor_events_empty_not_63:
  "anchor_events [] \<noteq> Inr ''e3b0c44298fc1c149afbf4c8996fb92427ae41e4649b934ca495991b7852b85''"
  by (simp add: anchor_events_def sha256_hexdigest_new)


section \<open>Aborted computations\<close>

lemma anchor_loop_first_refused:
  assumes "\<forall>e \<in> set pre. check_event e = Inr ()"
    and "\<exists>e \<in> set pre. canonical_bytes e = None"
  shows "\<exists>h'. anchor_loop (pre @ rest) h = (h', Some EncodingError)"
proof -
  from split_list_first_prop [OF assms(2)] obtain p1 ev p2 where
    pre: "pre = p1 @ ev # p2" and none: "canonical_bytes ev = None"
    and before: "\<forall>e \<in> set p1. canonical_bytes e \<noteq> None"
    by blast
  from assms(1) pre have ok: "check_event ev = Inr ()"
    and "\<forall>e \<in> set p1. check_event e = Inr ()" by simp_all
  with before have "\<forall>e \<in> set p1. check_event e = Inr () \<and> canonical_bytes e \<noteq> None"
    by blast
  from anchor_loop_prefix [OF this, of "ev # p2 @ rest" h]
       anchor_loop_Cons_refused [OF ok none]
  show ?thesis by (simp add: pre)
qed

text \<open>
  C4, as amended. Let an event sequence hold an event that fails validation, and take
  the first such event, so that every event before it passes validation. Then
  \<^verbatim>\<open>anchor_events\<close> returns no digest. If the encoder accepts every event before it,
  \<^verbatim>\<open>anchor_events\<close> raises that event's validation error, and the hash object has
  then been fed the encodings of the events before it and nothing else: no byte of the
  failing event or of a later one. If the encoder refuses one of the events before it,
  \<^verbatim>\<open>anchor_events\<close> raises the encoder's exception instead.
\<close>

theorem anchor_events_aborts:
  assumes "\<forall>e \<in> set pre. check_event e = Inr ()" and "check_event ev = Inl err"
  shows "(\<exists>e. anchor_events (pre @ ev # post) = Inl e)
       \<and> ((\<forall>e \<in> set pre. canonical_bytes e \<noteq> None) \<longrightarrow>
              anchor_events (pre @ ev # post) = Inl err
            \<and> anchor_loop (pre @ ev # post) sha256_new =
                (foldl sha256_update sha256_new (map (\<lambda>e. the (canonical_bytes e)) pre),
                 Some err))
       \<and> ((\<exists>e \<in> set pre. canonical_bytes e = None) \<longrightarrow>
              anchor_events (pre @ ev # post) = Inl EncodingError)"
proof -
  have fed: "anchor_loop (pre @ ev # post) sha256_new =
                (foldl sha256_update sha256_new (map (\<lambda>e. the (canonical_bytes e)) pre),
                 Some err)"
    if "\<forall>e \<in> set pre. canonical_bytes e \<noteq> None"
  proof -
    from assms(1) that
    have "\<forall>e \<in> set pre. check_event e = Inr () \<and> canonical_bytes e \<noteq> None" by blast
    from anchor_loop_prefix [OF this, of "ev # post" sha256_new]
         anchor_loop_Cons_invalid [OF assms(2)]
    show ?thesis by simp
  qed
  have refused: "anchor_events (pre @ ev # post) = Inl EncodingError"
    if "\<exists>e \<in> set pre. canonical_bytes e = None"
  proof -
    from anchor_loop_first_refused [OF assms(1) that, of "ev # post" sha256_new]
    show ?thesis by (auto simp add: anchor_events_def)
  qed
  have "\<exists>e. anchor_events (pre @ ev # post) = Inl e"
  proof (cases "\<forall>e \<in> set pre. canonical_bytes e \<noteq> None")
    case True
    from fed [OF True] show ?thesis by (simp add: anchor_events_def)
  next
    case False
    then have "\<exists>e \<in> set pre. canonical_bytes e = None" by simp
    from refused [OF this] show ?thesis by blast
  qed
  moreover have "anchor_events (pre @ ev # post) = Inl err"
    if "\<forall>e \<in> set pre. canonical_bytes e \<noteq> None"
    using fed [OF that] by (simp add: anchor_events_def)
  ultimately show ?thesis using fed refused by blast
qed

text \<open>The theorem at a confirmed, a pending and a further confirmed sample event.\<close>

theorem anchor_events_aborts_witness:
  "check_event (sample_event (JStr ''e1'') (JStr ''CONFIRMED'') (JDict [])) = Inr ()
   \<and> check_event (sample_event (JStr ''e2'') (JStr ''PENDING'') (JDict [])) =
       Inl (SimpleHashPendingEventFound (JStr ''e2'') (JStr ''PENDING''))
   \<and> canonical_bytes (sample_event (JStr ''e1'') (JStr ''CONFIRMED'') (JDict [])) \<noteq> None
   \<and> anchor_events
        [sample_event (JStr ''e1'') (JStr ''CONFIRMED'') (JDict []),
         sample_event (JStr ''e2'') (JStr ''PENDING'') (JDict []),
         sample_event (JStr ''e3'') (JStr ''CONFIRMED'') (JDict [])] =
       Inl (SimpleHashPendingEventFound (JStr ''e2'') (JStr ''PENDING''))
   \<and> anchor_loop
        [sample_event (JStr ''e1'') (JStr ''CONFIRMED'') (JDict []),
         sample_event (JStr ''e2'') (JStr ''PENDING'') (JDict []),
         sample_event (JStr ''e3'') (JStr ''CONFIRMED'') (JDict [])] sha256_new =
       (sha256_update sha256_new
          (the (canonical_bytes (sample_event (JStr ''e1'') (JStr ''CONFIRMED'') (JDict [])))),
        Some (SimpleHashPendingEventFound (JStr ''e2'') (JStr ''PENDING'')))"
proof -
  let ?e1 = "sample_event (JStr ''e1'') (JStr ''CONFIRMED'') (JDict [])"
  let ?e2 = "sample_event (JStr ''e2'') (JStr ''PENDING'') (JDict [])"
  let ?e3 = "sample_event (JStr ''e3'') (JStr ''CONFIRMED'') (JDict [])"
  have v: "\<forall>e \<in> set [?e1]. check_event e = Inr ()"
    by (simp add: sample_event_valid)
  have p: "check_event ?e2 = Inl (SimpleHashPendingEventFound (JStr ''e2'') (JStr ''PENDING''))"
    by (rule sample_event_pending)
  have c: "\<forall>e \<in> set [?e1]. canonical_bytes e \<noteq> None"
    by (simp add: canonical_bytes_complete sample_event_keys sample_event_bytes_e1)
  from anchor_events_aborts [OF v p, of "[?e3]"] v p c show ?thesis by simp
qed

text \<open>C4 as stated fails: the second event fails validation, but \<^verbatim>\<open>anchor_events\<close>
  raises the encoder's exception for the first event, which passes validation and holds
  the floating-point number 2.5, not the validation error of the second.\<close>

theorem anchor_events_aborts_counterexample:
  "check_event (sample_event (JStr ''e2'') (JStr ''PENDING'') (JDict [])) =
     Inl (SimpleHashPendingEventFound (JStr ''e2'') (JStr ''PENDING''))
   \<and> anchor_events
        [sample_event (JStr ''e1'') (JStr ''CONFIRMED'') (JDict [(''weight'', JFloat 5 (- 1))]),
         sample_event (JStr ''e2'') (JStr ''PENDING'') (JDict [])] =
       Inl EncodingError"
proof -
  have "has_float (JDict [(''weight'', JFloat 5 (- 1))])" by simp
  then have "canonical_bytes
      (sample_event (JStr ''e1'') (JStr ''CONFIRMED'') (JDict [(''weight'', JFloat 5 (- 1))])) = None"
    by (rule sample_event_float)
  from anchor_loop_Cons_refused [OF sample_event_valid(1) this]
  show ?thesis
    by (simp add: anchor_events_def sample_event_pending)
qed

text \<open>
  C9. For every event that passes validation and holds a floating-point value inside
  one of its 14 required fields, the encoding step refuses the event: the loop leaves
  with the encoder's exception when it reaches the event, whatever was hashed before,
  and \<^verbatim>\<open>anchor_events\<close> over any sequence that holds the event returns an error, not a
  digest.
\<close>

theorem anchor_events_float:
  assumes "ev \<in> set events" and "check_event ev = Inr ()"
    and "k \<in> V1_FIELDS" and "has_float (the (map_of ev k))"
  shows "canonical_bytes ev = None
       \<and> anchor_loop (ev # rest) hasher = (hasher, Some EncodingError)
       \<and> (\<exists>e. anchor_events events = Inl e)"
proof -
  from assms(2) have keys: "V1_FIELDS \<subseteq> fst ` set ev" by (rule check_event_ok_keys)
  from assms(3,4) have "has_float (JDict (projection ev))"
    unfolding has_float_projection by blast
  then have "binary_encode (JDict (projection ev)) = None"
    by (rule binary_encode_float)
  with keys have none: "canonical_bytes ev = None"
    by (simp add: canonical_bytes_complete)
  from assms(1) none
  have "\<exists>e \<in> set events. check_event e \<noteq> Inr () \<or> canonical_bytes e = None" by blast
  from anchor_loop_error [OF this, of sha256_new]
  have "\<exists>e. anchor_events events = Inl e" by (auto simp add: anchor_events_def)
  with none anchor_loop_Cons_refused [OF assms(2) none] show ?thesis by simp
qed

text \<open>The theorem at a sequence whose second event has a list with the number 0.25 as
  its \<^verbatim>\<open>event_attributes\<close>.\<close>

theorem anchor_events_float_witness:
  "sample_event (JStr ''e2'') (JStr ''FAILED'') (JList [JInt 1, JFloat 1 (- 2)])
     \<in> set [sample_event (JStr ''e1'') (JStr ''CONFIRMED'') (JDict []),
            sample_event (JStr ''e2'') (JStr ''FAILED'') (JList [JInt 1, JFloat 1 (- 2)])]
   \<and> check_event (sample_event (JStr ''e2'') (JStr ''FAILED'') (JList [JInt 1, JFloat 1 (- 2)]))
       = Inr ()
   \<and> ''event_attributes'' \<in> V1_FIELDS
   \<and> has_float (the (map_of
        (sample_event (JStr ''e2'') (JStr ''FAILED'') (JList [JInt 1, JFloat 1 (- 2)]))
        ''event_attributes''))
   \<and> (\<exists>e. anchor_events
        [sample_event (JStr ''e1'') (JStr ''CONFIRMED'') (JDict []),
         sample_event (JStr ''e2'') (JStr ''FAILED'') (JList [JInt 1, JFloat 1 (- 2)])] = Inl e)"
proof -
  let ?e1 = "sample_event (JStr ''e1'') (JStr ''CONFIRMED'') (JDict [])"
  let ?e2 = "sample_event (JStr ''e2'') (JStr ''FAILED'') (JList [JInt 1, JFloat 1 (- 2)])"
  have m: "?e2 \<in> set [?e1, ?e2]" by simp
  have v: "check_event ?e2 = Inr ()" by (rule sample_event_valid)
  have k: "''event_attributes'' \<in> V1_FIELDS" by (simp add: V1_FIELDS_def)
  have f: "has_float (the (map_of ?e2 ''event_attributes''))" by (simp add: sample_event_def)
  from anchor_events_float [OF m v k f] m v k f show ?thesis by blast
qed


section \<open>Independence of key order and of other keys\<close>

text \<open>The encoder sorts the entries of a map by key, so the redaction encodes to the
  same bytes in whatever order the 14 names are visited.\<close>

lemma sort_key_tabulate_any_order:
  assumes "set ks1 = set ks2" and "distinct ks1" and "distinct ks2"
  shows "sort_key fst (map (\<lambda>k. (k, f k)) ks1) = sort_key fst (map (\<lambda>k. (k, f k)) ks2)"
proof (rule map_sorted_distinct_set_unique [where f = fst])
  let ?g = "\<lambda>k. (k, f k)"
  have inj: "inj_on fst (?g ` A)" for A
    by (auto simp add: inj_on_def)
  show "inj_on fst (set (sort_key fst (map ?g ks1)) \<union> set (sort_key fst (map ?g ks2)))"
    using inj [of "set ks1 \<union> set ks2"] by (simp add: image_Un)
  show "sorted (map fst (sort_key fst (map ?g ks1)))" "sorted (map fst (sort_key fst (map ?g ks2)))"
    by (rule sorted_sort_key)+
  have d: "distinct (map fst (sort_key fst (map ?g ks)))" if "distinct ks" for ks
  proof -
    from that have "distinct (map ?g ks)" by (simp add: distinct_map inj_on_def)
    then have "distinct (sort_key fst (map ?g ks))" by simp
    moreover have "inj_on fst (set (sort_key fst (map ?g ks)))"
      using inj [of "set ks"] by simp
    ultimately show ?thesis by (simp add: distinct_map)
  qed
  from d assms show "distinct (map fst (sort_key fst (map ?g ks1)))"
    "distinct (map fst (sort_key fst (map ?g ks2)))" by blast+
  from assms(1) show "set (sort_key fst (map ?g ks1)) = set (sort_key fst (map ?g ks2))"
    by simp
qed

lemma binary_encode_redact_any_order:
  assumes "V1_FIELDS \<subseteq> fst ` set event" and "set ks = V1_FIELDS" and "distinct ks"
  shows "\<exists>r. redact_fields ks event = Inr r
           \<and> binary_encode (JDict r) = binary_encode (JDict (projection event))"
proof -
  from assms(1,2) have "redact_fields ks event = Inr (map (\<lambda>k. (k, the (map_of event k))) ks)"
    by (simp add: redact_fields_complete)
  moreover have "sort_key fst (map (\<lambda>k. (k, the (map_of event k))) ks)
                   = sort_key fst (projection event)"
    unfolding projection_def using assms(2,3)
    by (intro sort_key_tabulate_any_order) (simp_all add: V1_FIELDS_iter_set V1_FIELDS_iter_distinct)
  ultimately show ?thesis by (simp add: binary_encode.simps)
qed

lemma projection_agree:
  assumes "V1_FIELDS \<subseteq> fst ` set event1"
    and "\<forall>k \<in> V1_FIELDS. map_of event1 k = map_of event2 k"
  shows "V1_FIELDS \<subseteq> fst ` set event2" and "projection event1 = projection event2"
proof -
  show "V1_FIELDS \<subseteq> fst ` set event2"
  proof
    fix k assume k: "k \<in> V1_FIELDS"
    from required_key_lookup [OF assms(1) k] assms(2) k
    have "map_of event2 k \<noteq> None" by auto
    then show "k \<in> fst ` set event2" by (simp add: map_of_eq_None_iff)
  qed
  from assms(2) show "projection event1 = projection event2"
    by (simp add: projection_def V1_FIELDS_iter_set)
qed

text \<open>The encoder sorts the entries of nested maps as well, so a value and its normal
  form have the same encoding.\<close>

lemma insort_key_map_same_key:
  assumes "\<And>y. f (g y) = f y"
  shows "insort_key f (g x) (map g xs) = map g (insort_key f x xs)"
  by (induction xs) (simp_all add: assms)

lemma sort_key_map_same_key:
  assumes "\<And>y. f (g y) = f y"
  shows "sort_key f (map g xs) = map g (sort_key f xs)"
proof (induction xs)
  case Nil
  show ?case by simp
next
  case (Cons x xs)
  have "insort_key f (g x) (map g (sort_key f xs)) = map g (insort_key f x (sort_key f xs))"
    using assms by (rule insort_key_map_same_key)
  with Cons show ?case by simp
qed

lemma sort_key_idem: "sort_key f (sort_key f xs) = sort_key f xs"
  by (simp add: sort_key_id_if_sorted)

lemma binary_encode_normal_form: "binary_encode (normal_form v) = binary_encode v"
proof (induction v)
  case (JList xs)
  then have "map (binary_encode \<circ> normal_form) xs = map binary_encode xs" by simp
  then show ?case by (simp add: binary_encode.simps del: map_eq_conv)
next
  case (JDict kvs)
  let ?enc = "\<lambda>(k, v). map_option ((@) (encode_bytes k)) (binary_encode v)"
  let ?g = "\<lambda>(k, v). (k, normal_form v)"
  have key: "fst (?g y) = fst y" for y :: "string \<times> jvalue" by (cases y) simp
  have "?enc (?g kv) = ?enc kv" if "kv \<in> set (sort_key fst kvs)" for kv
  proof -
    obtain k v where kv: "kv = (k, v)" by (cases kv)
    with that have "(k, v) \<in> set kvs" by simp
    moreover have "v \<in> Basic_BNFs.snds (k, v)" by (simp add: snds.simps)
    ultimately have "binary_encode (normal_form v) = binary_encode v" by (rule JDict.IH)
    with kv show ?thesis by simp
  qed
  then have "map (?enc \<circ> ?g) (sort_key fst kvs) = map ?enc (sort_key fst kvs)" by simp
  moreover have "sort_key fst (sort_key fst (map ?g kvs)) = map ?g (sort_key fst kvs)"
  proof -
    have "sort_key fst (sort_key fst (map ?g kvs)) = sort_key fst (map ?g kvs)"
      by (rule sort_key_idem)
    also have "\<dots> = map ?g (sort_key fst kvs)"
      by (rule sort_key_map_same_key) (rule key)
    finally show ?thesis .
  qed
  ultimately show ?case by (simp add: binary_encode.simps del: map_eq_conv)
qed (simp_all add: binary_encode.simps)

lemma canonical_bytes_normal_form:
  assumes "V1_FIELDS \<subseteq> fst ` set event"
  shows "canonical_bytes event =
           binary_encode (JDict (sort_key fst
             (map (\<lambda>k. (k, normal_form (the (map_of event k)))) V1_FIELDS_iter)))"
proof -
  have "normal_form (JDict (projection event)) =
          JDict (sort_key fst (map (\<lambda>k. (k, normal_form (the (map_of event k)))) V1_FIELDS_iter))"
    by (simp add: projection_def comp_def)
  with binary_encode_normal_form [of "JDict (projection event)"] assms show ?thesis
    by (simp add: canonical_bytes_complete)
qed

lemma canonical_bytes_agree_up_to_order:
  assumes "V1_FIELDS \<subseteq> fst ` set event1"
    and "\<forall>k \<in> V1_FIELDS.
           map_option normal_form (map_of event1 k) = map_option normal_form (map_of event2 k)"
  shows "V1_FIELDS \<subseteq> fst ` set event2" and "canonical_bytes event1 = canonical_bytes event2"
proof -
  show keys: "V1_FIELDS \<subseteq> fst ` set event2"
  proof
    fix k assume k: "k \<in> V1_FIELDS"
    from required_key_lookup [OF assms(1) k] obtain v where "map_of event1 k = Some v"
      by blast
    with assms(2) k have "map_option normal_form (map_of event2 k) = Some (normal_form v)"
      by (metis option.simps(9))
    then have "map_of event2 k \<noteq> None" by (cases "map_of event2 k") simp_all
    then show "k \<in> fst ` set event2" by (simp add: map_of_eq_None_iff)
  qed
  have "normal_form (the (map_of event1 k)) = normal_form (the (map_of event2 k))"
    if k: "k \<in> set V1_FIELDS_iter" for k
  proof -
    from k have k': "k \<in> V1_FIELDS" by (simp add: V1_FIELDS_iter_set)
    from required_key_lookup [OF assms(1) k'] obtain v where v: "map_of event1 k = Some v"
      by blast
    from required_key_lookup [OF keys k'] obtain w where w: "map_of event2 k = Some w"
      by blast
    from assms(2) k' v w show ?thesis by auto
  qed
  then have "map (\<lambda>k. (k, normal_form (the (map_of event1 k)))) V1_FIELDS_iter =
             map (\<lambda>k. (k, normal_form (the (map_of event2 k)))) V1_FIELDS_iter"
    by simp
  with canonical_bytes_normal_form [OF assms(1)] canonical_bytes_normal_form [OF keys]
  show "canonical_bytes event1 = canonical_bytes event2" by simp
qed

text \<open>
  C3. For every event that contains the 14 required fields, and any second event that
  agrees with it on these 14 fields (as Python values: up to the order of keys inside
  the values), the bytes fed to the hash object (the encoding of the redacted event)
  are the same for both, whatever the order of the keys in the two events and whatever
  other keys they hold; the same is true when the two redactions visit the 14 names in
  two different orders. (A terminal confirmation status is not needed for this.)
\<close>

theorem canonical_bytes_agree:
  assumes "V1_FIELDS \<subseteq> fst ` set event1"
    and "(map_option normal_form \<circ> map_of event1) |` V1_FIELDS =
         (map_option normal_form \<circ> map_of event2) |` V1_FIELDS"
    and "set ks1 = V1_FIELDS" and "distinct ks1"
    and "set ks2 = V1_FIELDS" and "distinct ks2"
  shows "canonical_bytes event1 = canonical_bytes event2
       \<and> (\<exists>r1 r2. redact_fields ks1 event1 = Inr r1 \<and> redact_fields ks2 event2 = Inr r2
             \<and> binary_encode (JDict r1) = canonical_bytes event1
             \<and> binary_encode (JDict r2) = canonical_bytes event2)"
proof -
  have "map_option normal_form (map_of event1 k) = map_option normal_form (map_of event2 k)"
    if "k \<in> V1_FIELDS" for k
    using fun_cong [OF assms(2), of k] that by simp
  then have "\<forall>k \<in> V1_FIELDS.
      map_option normal_form (map_of event1 k) = map_option normal_form (map_of event2 k)"
    by blast
  note a = canonical_bytes_agree_up_to_order [OF assms(1) this]
  from binary_encode_redact_any_order [OF assms(1,3,4)] assms(1)
  obtain r1 where "redact_fields ks1 event1 = Inr r1"
    and "binary_encode (JDict r1) = canonical_bytes event1"
    by (auto simp add: canonical_bytes_complete)
  moreover from binary_encode_redact_any_order [OF a(1) assms(5,6)] a(1)
  obtain r2 where "redact_fields ks2 event2 = Inr r2"
    and "binary_encode (JDict r2) = canonical_bytes event2"
    by (auto simp add: canonical_bytes_complete)
  ultimately show ?thesis using a(2) by blast
qed

text \<open>The theorem at a sample event and a second event that has the keys in reverse
  order, one more key, and the two keys of its \<^verbatim>\<open>event_attributes\<close> exchanged; the
  redactions visit the 14 names in source order and in reverse order.\<close>

theorem canonical_bytes_agree_witness:
  "V1_FIELDS \<subseteq> fst ` set (sample_event (JStr ''e1'') (JStr ''CONFIRMED'')
           (JDict [(''colour'', JStr ''red''), (''weight'', JInt 3)]))
   \<and> (map_option normal_form \<circ> map_of (sample_event (JStr ''e1'') (JStr ''CONFIRMED'')
           (JDict [(''colour'', JStr ''red''), (''weight'', JInt 3)]))) |` V1_FIELDS =
       (map_option normal_form \<circ> map_of ((''block_number'', JInt 7) #
         rev (sample_event (JStr ''e1'') (JStr ''CONFIRMED'')
                (JDict [(''weight'', JInt 3), (''colour'', JStr ''red'')])))) |` V1_FIELDS
   \<and> set V1_FIELDS_iter = V1_FIELDS \<and> distinct V1_FIELDS_iter
   \<and> set (rev V1_FIELDS_iter) = V1_FIELDS \<and> distinct (rev V1_FIELDS_iter)
   \<and> sample_event (JStr ''e1'') (JStr ''CONFIRMED'')
           (JDict [(''colour'', JStr ''red''), (''weight'', JInt 3)]) \<noteq>
       (''block_number'', JInt 7) #
         rev (sample_event (JStr ''e1'') (JStr ''CONFIRMED'')
                (JDict [(''weight'', JInt 3), (''colour'', JStr ''red'')]))
   \<and> canonical_bytes (sample_event (JStr ''e1'') (JStr ''CONFIRMED'')
           (JDict [(''colour'', JStr ''red''), (''weight'', JInt 3)])) =
       canonical_bytes ((''block_number'', JInt 7) #
         rev (sample_event (JStr ''e1'') (JStr ''CONFIRMED'')
                (JDict [(''weight'', JInt 3), (''colour'', JStr ''red'')])))"
proof -
  let ?e1 = "sample_event (JStr ''e1'') (JStr ''CONFIRMED'')
           (JDict [(''colour'', JStr ''red''), (''weight'', JInt 3)])"
  let ?e2 = "(''block_number'', JInt 7) #
         rev (sample_event (JStr ''e1'') (JStr ''CONFIRMED'')
                (JDict [(''weight'', JInt 3), (''colour'', JStr ''red'')]))"
  have k: "V1_FIELDS \<subseteq> fst ` set ?e1" by (simp add: sample_event_keys)
  have "\<forall>k \<in> V1_FIELDS.
      map_option normal_form (map_of ?e1 k) = map_option normal_form (map_of ?e2 k)"
    by (simp add: V1_FIELDS_def sample_event_def)
  then have a: "(map_option normal_form \<circ> map_of ?e1) |` V1_FIELDS =
                (map_option normal_form \<circ> map_of ?e2) |` V1_FIELDS"
    by (auto simp add: restrict_map_def)
  have o1: "set V1_FIELDS_iter = V1_FIELDS" "distinct V1_FIELDS_iter"
    by (simp_all add: V1_FIELDS_iter_set V1_FIELDS_iter_distinct)
  have o2: "set (rev V1_FIELDS_iter) = V1_FIELDS" "distinct (rev V1_FIELDS_iter)"
    by (simp_all add: V1_FIELDS_iter_set V1_FIELDS_iter_distinct)
  have d: "?e1 \<noteq> ?e2" by (simp add: sample_event_def)
  from canonical_bytes_agree [OF k a o1 o2] k a o1 o2 d show ?thesis by blast
qed

section \<open>The encoding is self-delimiting\<close>

text \<open>No encoding is a proper prefix of another: what follows an encoded value in a
  byte string is determined by the string. Decimal numerals are injective and hold
  digits only, so the length prefix of a text ends at the first colon.\<close>

lemma digit_char_digit: "d < 10 \<Longrightarrow> digit_char d \<in> set ''0123456789''"
  unfolding digit_char_def by (rule nth_mem) simp

lemma digit_char_inj:
  assumes "a < 10" and "b < 10" and "digit_char a = digit_char b"
  shows "a = b"
proof -
  have "distinct ''0123456789''" by simp
  with assms show ?thesis
    unfolding digit_char_def by (simp add: nth_eq_iff_index_eq)
qed

lemma str_nat_digits: "set (str_nat n) \<subseteq> set ''0123456789''"
proof (induction n rule: str_nat.induct)
  case (1 n)
  show ?case
  proof (cases "n < 10")
    case True
    with digit_char_digit [of n] show ?thesis by (subst str_nat.simps) simp
  next
    case False
    have "n mod 10 < 10" by simp
    from digit_char_digit [OF this] 1 [OF False] False show ?thesis
      by (subst str_nat.simps) simp
  qed
qed

lemma str_nat_not_Nil: "str_nat n \<noteq> []"
  by (subst str_nat.simps) simp

lemma str_nat_inj: "str_nat m = str_nat n \<Longrightarrow> m = n"
proof (induction m arbitrary: n rule: str_nat.induct)
  case (1 m)
  show ?case
  proof (cases "m < 10")
    case m: True
    show ?thesis
    proof (cases "n < 10")
      case True
      with m "1.prems" have "digit_char m = digit_char n"
        by (simp add: str_nat.simps [of m] str_nat.simps [of n])
      with m True show ?thesis by (rule digit_char_inj)
    next
      case False
      with m "1.prems" have "[digit_char m] = str_nat (n div 10) @ [digit_char (n mod 10)]"
        by (simp add: str_nat.simps [of m] str_nat.simps [of n])
      then have "str_nat (n div 10) = []" by simp
      with str_nat_not_Nil show ?thesis by blast
    qed
  next
    case m: False
    show ?thesis
    proof (cases "n < 10")
      case True
      with m "1.prems" have "str_nat (m div 10) @ [digit_char (m mod 10)] = [digit_char n]"
        by (simp add: str_nat.simps [of m] str_nat.simps [of n])
      then have "str_nat (m div 10) = []" by simp
      with str_nat_not_Nil show ?thesis by blast
    next
      case False
      with m "1.prems"
      have "str_nat (m div 10) @ [digit_char (m mod 10)] =
            str_nat (n div 10) @ [digit_char (n mod 10)]"
        by (simp add: str_nat.simps [of m] str_nat.simps [of n])
      then have q: "str_nat (m div 10) = str_nat (n div 10)"
        and r: "digit_char (m mod 10) = digit_char (n mod 10)" by simp_all
      from "1.IH" [OF m q] have "m div 10 = n div 10" .
      moreover from r have "m mod 10 = n mod 10" by (intro digit_char_inj) simp_all
      ultimately show ?thesis by (metis div_mult_mod_eq)
    qed
  qed
qed

lemma split_at_separator:
  assumes "c \<notin> set xs" and "c \<notin> set ys" and "xs @ c # a = ys @ c # b"
  shows "xs = ys \<and> a = b"
  using assms
proof (induction xs arbitrary: ys)
  case Nil
  then show ?case by (cases ys) auto
next
  case (Cons x xs)
  then show ?case by (cases ys) auto
qed

lemma encode_bytes_self_delimiting:
  assumes "encode_bytes s @ r = encode_bytes s' @ r'"
  shows "s = s' \<and> r = r'"
proof -
  have sep: "CHR '':'' \<notin> set (str_nat n)" for n
    using str_nat_digits [of n] by auto
  from assms have "str_nat (length s) @ CHR '':'' # (s @ r) = str_nat (length s') @ CHR '':'' # (s' @ r')"
    by (simp add: encode_bytes_def)
  from split_at_separator [OF sep sep this]
  have "str_nat (length s) = str_nat (length s')" and eq: "s @ r = s' @ r'" by simp_all
  then have "length s = length s'" by (simp add: str_nat_inj)
  with eq show ?thesis by simp
qed

lemma encode_bytes_head: "encode_bytes s \<noteq> [] \<and> hd (encode_bytes s) \<in> set ''0123456789''"
proof -
  have "hd (str_nat (length s)) \<in> set (str_nat (length s))"
    using str_nat_not_Nil by (rule hd_in_set)
  with str_nat_digits have "hd (str_nat (length s)) \<in> set ''0123456789''" by blast
  with str_nat_not_Nil [of "length s"] show ?thesis by (simp add: encode_bytes_def)
qed

lemma str_int_no_e: "CHR ''e'' \<notin> set (str_int i)"
  using str_nat_digits [of "nat i"] str_nat_digits [of "nat (- i)"]
  by (auto simp add: str_int_def)

lemma binary_encode_head:
  assumes "binary_encode v = Some b"
  shows "b \<noteq> [] \<and>
         (case v of
            JStr s \<Rightarrow> hd b \<in> set ''0123456789''
          | JInt i \<Rightarrow> hd b = CHR ''i''
          | JFloat m e \<Rightarrow> False
          | JNull \<Rightarrow> False
          | JList xs \<Rightarrow> hd b = CHR ''l''
          | JDict kvs \<Rightarrow> hd b = CHR ''d'')"
proof (cases v)
  case (JStr s)
  with assms encode_bytes_head [of s] show ?thesis by (simp add: binary_encode.simps)
next
  case (JInt i)
  with assms show ?thesis by (auto simp add: binary_encode.simps)
next
  case (JFloat m e)
  with assms show ?thesis by (simp add: binary_encode.simps)
next
  case JNull
  with assms show ?thesis by (simp add: binary_encode.simps)
next
  case (JList xs)
  with assms show ?thesis by (auto simp add: binary_encode.simps)
next
  case (JDict kvs)
  with assms show ?thesis by (auto simp add: binary_encode.simps)
qed

lemma binary_encode_not_e:
  assumes "binary_encode v = Some b"
  shows "b \<noteq> [] \<and> hd b \<noteq> CHR ''e''"
  using binary_encode_head [OF assms] by (cases v) auto

lemma binary_encode_same_kind:
  assumes "binary_encode v = Some b" and "binary_encode v' = Some b'" and "b @ r = b' @ r'"
  shows "case v of
            JStr s \<Rightarrow> \<exists>s'. v' = JStr s'
          | JInt i \<Rightarrow> \<exists>i'. v' = JInt i'
          | JFloat m e \<Rightarrow> False
          | JNull \<Rightarrow> False
          | JList xs \<Rightarrow> \<exists>ys. v' = JList ys
          | JDict kvs \<Rightarrow> \<exists>kvs'. v' = JDict kvs'"
proof -
  note h = binary_encode_head [OF assms(1)] and h' = binary_encode_head [OF assms(2)]
  from h h' assms(3) have "hd b = hd b'" by (cases b; cases b') simp_all
  with h h' show ?thesis by (cases v; cases v') auto
qed

lemma those_map_Cons:
  "those (map enc (x # xs)) = Some bs \<Longrightarrow>
     \<exists>b bs'. enc x = Some b \<and> those (map enc xs) = Some bs' \<and> bs = b # bs'"
  by (cases "enc x") auto

lemma sequence_self_delimiting:
  fixes enc :: "'a \<Rightarrow> string option"
  assumes sd: "\<And>x y b b' r r'. x \<in> set xs \<Longrightarrow> enc x = Some b \<Longrightarrow> enc y = Some b' \<Longrightarrow>
                 b @ r = b' @ r' \<Longrightarrow> b = b' \<and> r = r'"
    and hd: "\<And>y b. enc y = Some b \<Longrightarrow> b \<noteq> [] \<and> hd b \<noteq> CHR ''e''"
    and "those (map enc xs) = Some bs" and "those (map enc ys) = Some bs'"
    and "concat bs @ CHR ''e'' # r = concat bs' @ CHR ''e'' # r'"
  shows "concat bs = concat bs' \<and> r = r'"
  using assms
proof (induction xs arbitrary: ys bs bs')
  case Nil
  then have bs: "bs = []" by simp
  show ?case
  proof (cases ys)
    case Nil
    with Nil.prems bs show ?thesis by simp
  next
    case (Cons y ys')
    with Nil.prems(4) have "those (map enc (y # ys')) = Some bs'" by simp
    from those_map_Cons [OF this] obtain b bs'' where b: "enc y = Some b" and "bs' = b # bs''"
      by blast
    with Nil.prems(5) bs have "CHR ''e'' # r = b @ concat bs'' @ CHR ''e'' # r'" by simp
    with Nil.prems(2) [OF b] show ?thesis by (cases b) auto
  qed
next
  case (Cons x xs)
  from those_map_Cons [OF Cons.prems(3)] obtain b bs1 where b: "enc x = Some b"
    and bs1: "those (map enc xs) = Some bs1" and bs: "bs = b # bs1"
    by blast
  show ?case
  proof (cases ys)
    case Nil
    with Cons.prems(4) have "bs' = []" by simp
    with Cons.prems(5) bs have "b @ concat bs1 @ CHR ''e'' # r = CHR ''e'' # r'" by simp
    with Cons.prems(2) [OF b] show ?thesis by (cases b) auto
  next
    case (Cons y ys')
    with Cons.prems(4) have "those (map enc (y # ys')) = Some bs'" by simp
    from those_map_Cons [OF this] obtain b' bs2 where b': "enc y = Some b'"
      and bs2: "those (map enc ys') = Some bs2" and bs': "bs' = b' # bs2"
      by blast
    from Cons.prems(5) bs bs'
    have "b @ (concat bs1 @ CHR ''e'' # r) = b' @ (concat bs2 @ CHR ''e'' # r')" by simp
    from Cons.prems(1) [OF _ b b' this]
    have eq: "b = b'" and rest: "concat bs1 @ CHR ''e'' # r = concat bs2 @ CHR ''e'' # r'"
      by simp_all
    have "concat bs1 = concat bs2 \<and> r = r'"
    proof (rule Cons.IH [OF _ _ bs1 bs2 rest])
      fix x' y b b' r r'
      assume "x' \<in> set xs" "enc x' = Some b" "enc y = Some b'" "b @ r = b' @ r'"
      then show "b = b' \<and> r = r'" using Cons.prems(1) [of x' b y b' r r'] by simp
    next
      fix y b assume "enc y = Some b"
      then show "b \<noteq> [] \<and> hd b \<noteq> CHR ''e''" by (rule Cons.prems(2))
    qed
    with eq bs bs' show ?thesis by simp
  qed
qed

lemma binary_encode_self_delimiting:
  "binary_encode v = Some b \<Longrightarrow> binary_encode v' = Some b' \<Longrightarrow> b @ r = b' @ r' \<Longrightarrow>
     b = b' \<and> r = r'"
proof (induction v arbitrary: v' b b' r r')
  case (JStr s)
  from binary_encode_same_kind [OF JStr.prems] obtain s' where "v' = JStr s'" by auto
  with JStr.prems(1,2) have "b = encode_bytes s" and "b' = encode_bytes s'"
    by (simp_all add: binary_encode.simps)
  with JStr.prems(3) encode_bytes_self_delimiting [of s r s' r'] show ?case by simp
next
  case (JInt i)
  from binary_encode_same_kind [OF JInt.prems] obtain i' where "v' = JInt i'" by auto
  with JInt.prems(1,2) have b: "b = CHR ''i'' # str_int i @ ''e''"
    and b': "b' = CHR ''i'' # str_int i' @ ''e''"
    by (simp_all add: binary_encode.simps)
  with JInt.prems(3) have "str_int i @ CHR ''e'' # r = str_int i' @ CHR ''e'' # r'" by simp
  from split_at_separator [OF str_int_no_e str_int_no_e this] b b' show ?case by simp
next
  case (JFloat m e)
  then show ?case by (simp add: binary_encode.simps)
next
  case JNull
  then show ?case by (simp add: binary_encode.simps)
next
  case (JList xs)
  from binary_encode_same_kind [OF JList.prems] obtain ys where v': "v' = JList ys" by auto
  from JList.prems(1) obtain bs where bs: "those (map binary_encode xs) = Some bs"
    and b: "b = CHR ''l'' # concat bs @ ''e''"
    by (auto simp add: binary_encode.simps)
  from JList.prems(2) v' obtain bs' where bs': "those (map binary_encode ys) = Some bs'"
    and b': "b' = CHR ''l'' # concat bs' @ ''e''"
    by (auto simp add: binary_encode.simps)
  from b b' JList.prems(3)
  have eq: "concat bs @ CHR ''e'' # r = concat bs' @ CHR ''e'' # r'" by simp
  have "concat bs = concat bs' \<and> r = r'"
  proof (rule sequence_self_delimiting [OF _ _ bs bs' eq])
    fix x y c c' s s'
    assume "x \<in> set xs" "binary_encode x = Some c" "binary_encode y = Some c'" "c @ s = c' @ s'"
    then show "c = c' \<and> s = s'" by (rule JList.IH)
  next
    fix y c assume "binary_encode y = Some c"
    then show "c \<noteq> [] \<and> hd c \<noteq> CHR ''e''" by (rule binary_encode_not_e)
  qed
  with b b' show ?case by simp
next
  case (JDict kvs)
  let ?enc = "\<lambda>(k, v). map_option ((@) (encode_bytes k)) (binary_encode v)"
  from binary_encode_same_kind [OF JDict.prems] obtain kvs' where v': "v' = JDict kvs'" by auto
  from JDict.prems(1) obtain bs where bs: "those (map ?enc (sort_key fst kvs)) = Some bs"
    and b: "b = CHR ''d'' # concat bs @ ''e''"
    by (auto simp add: binary_encode.simps)
  from JDict.prems(2) v' obtain bs' where bs': "those (map ?enc (sort_key fst kvs')) = Some bs'"
    and b': "b' = CHR ''d'' # concat bs' @ ''e''"
    by (auto simp add: binary_encode.simps)
  from b b' JDict.prems(3)
  have eq: "concat bs @ CHR ''e'' # r = concat bs' @ CHR ''e'' # r'" by simp
  have "concat bs = concat bs' \<and> r = r'"
  proof (rule sequence_self_delimiting [OF _ _ bs bs' eq])
    fix x y :: "string \<times> jvalue" and c c' s s'
    assume x: "x \<in> set (sort_key fst kvs)" and c: "?enc x = Some c" and c': "?enc y = Some c'"
      and e: "c @ s = c' @ s'"
    obtain k v where xk: "x = (k, v)" by (cases x)
    obtain k' w where yk: "y = (k', w)" by (cases y)
    from c xk obtain d where d: "binary_encode v = Some d" and cd: "c = encode_bytes k @ d"
      by auto
    from c' yk obtain d' where d': "binary_encode w = Some d'" and cd': "c' = encode_bytes k' @ d'"
      by auto
    from e cd cd' have "encode_bytes k @ (d @ s) = encode_bytes k' @ (d' @ s')" by simp
    from encode_bytes_self_delimiting [OF this] have kk: "k = k'" and ds: "d @ s = d' @ s'"
      by simp_all
    from x xk have "(k, v) \<in> set kvs" by simp
    moreover have "v \<in> Basic_BNFs.snds (k, v)" by (simp add: snds.simps)
    ultimately have "d = d' \<and> s = s'" using d d' ds by (rule JDict.IH)
    with cd cd' kk show "c = c' \<and> s = s'" by simp
  next
    fix y :: "string \<times> jvalue" and c assume c: "?enc y = Some c"
    obtain k w where "y = (k, w)" by (cases y)
    with c obtain d where "c = encode_bytes k @ d" by auto
    with encode_bytes_head [of k] show "c \<noteq> [] \<and> hd c \<noteq> CHR ''e''" by auto
  qed
  with b b' show ?case by simp
qed

section \<open>The order of the events\<close>

lemma canonical_bytes_commute:
  assumes "check_event e1 = Inr ()" and "check_event e2 = Inr ()"
    and "canonical_bytes e1 = Some b1" and "canonical_bytes e2 = Some b2"
    and "b1 @ b2 = b2 @ b1"
  shows "b1 = b2"
proof -
  from assms(1,3) have "binary_encode (JDict (projection e1)) = Some b1"
    by (simp add: check_event_ok_keys canonical_bytes_complete)
  moreover from assms(2,4) have "binary_encode (JDict (projection e2)) = Some b2"
    by (simp add: check_event_ok_keys canonical_bytes_complete)
  ultimately show ?thesis using assms(5) binary_encode_self_delimiting by blast
qed

text \<open>
  C8, as amended. For every pair of valid events whose canonical bytes (the encodings
  of their projections onto the 14 required fields) exist, the anchor over the two
  events in one order is the digest of the one concatenation and in the other order
  that of the other. If the canonical bytes differ, the two concatenations differ, so
  the two digests are the SHA-256 values of different inputs; if the canonical bytes
  are the same, the two digests are the same.
\<close>

theorem anchor_events_order:
  assumes "check_event e1 = Inr ()" and "check_event e2 = Inr ()"
    and "canonical_bytes e1 = Some b1" and "canonical_bytes e2 = Some b2"
  shows "anchor_events [e1, e2] = Inr (sha256_hex (b1 @ b2))
       \<and> anchor_events [e2, e1] = Inr (sha256_hex (b2 @ b1))
       \<and> (b1 \<noteq> b2 \<longrightarrow> b1 @ b2 \<noteq> b2 @ b1)
       \<and> (b1 = b2 \<longrightarrow> anchor_events [e1, e2] = anchor_events [e2, e1])"
proof -
  from assms have "\<forall>e \<in> set [e1, e2]. check_event e = Inr () \<and> canonical_bytes e \<noteq> None"
    and "\<forall>e \<in> set [e2, e1]. check_event e = Inr () \<and> canonical_bytes e \<noteq> None"
    by simp_all
  from anchor_events_all_fed(2) [OF this(1)] anchor_events_all_fed(2) [OF this(2)] assms(3,4)
  have d: "anchor_events [e1, e2] = Inr (sha256_hex (b1 @ b2))"
    "anchor_events [e2, e1] = Inr (sha256_hex (b2 @ b1))"
    by simp_all
  moreover from canonical_bytes_commute [OF assms] have "b1 \<noteq> b2 \<longrightarrow> b1 @ b2 \<noteq> b2 @ b1"
    by blast
  ultimately show ?thesis by simp
qed

text \<open>The theorem at two sample events that differ in identity and status.\<close>

theorem anchor_events_order_witness:
  "check_event (sample_event (JStr ''e1'') (JStr ''CONFIRMED'') (JDict [])) = Inr ()
   \<and> check_event (sample_event (JStr ''e2'') (JStr ''FAILED'') (JDict [])) = Inr ()
   \<and> (\<exists>b1 b2.
        canonical_bytes (sample_event (JStr ''e1'') (JStr ''CONFIRMED'') (JDict [])) = Some b1
      \<and> canonical_bytes (sample_event (JStr ''e2'') (JStr ''FAILED'') (JDict [])) = Some b2
      \<and> b1 \<noteq> b2 \<and> b1 @ b2 \<noteq> b2 @ b1
      \<and> anchor_events [sample_event (JStr ''e1'') (JStr ''CONFIRMED'') (JDict []),
                        sample_event (JStr ''e2'') (JStr ''FAILED'') (JDict [])] =
          Inr (sha256_hex (b1 @ b2))
      \<and> anchor_events [sample_event (JStr ''e2'') (JStr ''FAILED'') (JDict []),
                        sample_event (JStr ''e1'') (JStr ''CONFIRMED'') (JDict [])] =
          Inr (sha256_hex (b2 @ b1)))"
proof -
  let ?e1 = "sample_event (JStr ''e1'') (JStr ''CONFIRMED'') (JDict [])"
  let ?e2 = "sample_event (JStr ''e2'') (JStr ''FAILED'') (JDict [])"
  note v = sample_event_valid(1) [of "JStr ''e1''" "JDict []"]
    sample_event_valid(2) [of "JStr ''e2''" "JDict []"]
  obtain b1 where b1: "canonical_bytes ?e1 = Some b1"
    by (simp add: canonical_bytes_complete sample_event_keys sample_event_bytes_e1)
  obtain b2 where b2: "canonical_bytes ?e2 = Some b2"
    by (simp add: canonical_bytes_complete sample_event_keys sample_event_bytes_e2)
  from b1 b2 have "b1 \<noteq> b2"
    by (auto simp add: canonical_bytes_complete sample_event_keys
          sample_event_bytes_e1 sample_event_bytes_e2)
  with anchor_events_order [OF v b1 b2] v b1 b2 show ?thesis by blast
qed

text \<open>C8 as stated fails: two distinct valid events, the second being the first with
  one more key outside the 14 required fields, give the same digest in both orders.\<close>

theorem anchor_events_order_counterexample:
  "sample_event (JStr ''e1'') (JStr ''CONFIRMED'') (JDict []) \<noteq>
     (''block_number'', JInt 7) # sample_event (JStr ''e1'') (JStr ''CONFIRMED'') (JDict [])
   \<and> check_event (sample_event (JStr ''e1'') (JStr ''CONFIRMED'') (JDict [])) = Inr ()
   \<and> check_event ((''block_number'', JInt 7) #
                   sample_event (JStr ''e1'') (JStr ''CONFIRMED'') (JDict [])) = Inr ()
   \<and> anchor_events
        [sample_event (JStr ''e1'') (JStr ''CONFIRMED'') (JDict []),
         (''block_number'', JInt 7) # sample_event (JStr ''e1'') (JStr ''CONFIRMED'') (JDict [])] =
       anchor_events
        [(''block_number'', JInt 7) # sample_event (JStr ''e1'') (JStr ''CONFIRMED'') (JDict []),
         sample_event (JStr ''e1'') (JStr ''CONFIRMED'') (JDict [])]
   \<and> anchor_events
        [sample_event (JStr ''e1'') (JStr ''CONFIRMED'') (JDict []),
         (''block_number'', JInt 7) # sample_event (JStr ''e1'') (JStr ''CONFIRMED'') (JDict [])] =
       Inr (sha256_hex
         (''d16:asset_attributesd16:arc_display_name4:doore14:asset_identity9:assets/a19:behavio'' @
           ''ur14:RecordEvidence19:confirmation_status9:CONFIRMED16:event_attributesde4:from4:0x0'' @
           ''18:identity2:e19:operation6:Record18:principal_acceptedd6:issuer3:idpe18:principal_d'' @
           ''eclaredd6:issuer3:idpe15:tenant_identity9:tenant/t118:timestamp_accepted20:2023-01-0'' @
           ''1T00:00:01Z19:timestamp_committed20:2023-01-01T00:00:02Z18:timestamp_declared20:2023'' @
           ''-01-01T00:00:00Ze'' @
          ''d16:asset_attributesd16:arc_display_name4:doore14:asset_identity9:assets/a19:behavio'' @
           ''ur14:RecordEvidence19:confirmation_status9:CONFIRMED16:event_attributesde4:from4:0x0'' @
           ''18:identity2:e19:operation6:Record18:principal_acceptedd6:issuer3:idpe18:principal_d'' @
           ''eclaredd6:issuer3:idpe15:tenant_identity9:tenant/t118:timestamp_accepted20:2023-01-0'' @
           ''1T00:00:01Z19:timestamp_committed20:2023-01-01T00:00:02Z18:timestamp_declared20:2023'' @
           ''-01-01T00:00:00Ze''))"
proof -
  let ?e1 = "sample_event (JStr ''e1'') (JStr ''CONFIRMED'') (JDict [])"
  let ?e2 = "(''block_number'', JInt 7) # ?e1"
  let ?b = "''d16:asset_attributesd16:arc_display_name4:doore14:asset_identity9:assets/a19:behavio'' @
           ''ur14:RecordEvidence19:confirmation_status9:CONFIRMED16:event_attributesde4:from4:0x0'' @
           ''18:identity2:e19:operation6:Record18:principal_acceptedd6:issuer3:idpe18:principal_d'' @
           ''eclaredd6:issuer3:idpe15:tenant_identity9:tenant/t118:timestamp_accepted20:2023-01-0'' @
           ''1T00:00:01Z19:timestamp_committed20:2023-01-01T00:00:02Z18:timestamp_declared20:2023'' @
           ''-01-01T00:00:00Ze''"
  have v1: "check_event ?e1 = Inr ()" by (rule sample_event_valid)
  have k1: "V1_FIELDS \<subseteq> fst ` set ?e1" by (simp add: sample_event_keys)
  have agree: "\<forall>k \<in> V1_FIELDS. map_of ?e1 k = map_of ?e2 k"
    by (simp add: V1_FIELDS_def)
  note p = projection_agree [OF k1 agree]
  from p(1) have v2: "check_event ?e2 = Inr ()"
    by (simp add: check_event_ok_iff sample_event_status)
  have b1: "canonical_bytes ?e1 = Some ?b"
    using sample_event_bytes_e1 by (simp add: canonical_bytes_complete k1)
  with p have b2: "canonical_bytes ?e2 = Some ?b"
    by (simp add: canonical_bytes_complete k1)
  from v1 v2 b1 b2
  have "\<forall>e \<in> set [?e1, ?e2]. check_event e = Inr () \<and> canonical_bytes e \<noteq> None"
    and "\<forall>e \<in> set [?e2, ?e1]. check_event e = Inr () \<and> canonical_bytes e \<noteq> None"
    by simp_all
  from anchor_events_all_fed(2) [OF this(1)] anchor_events_all_fed(2) [OF this(2)] b1 b2 v1 v2
  show ?thesis by simp
qed


section \<open>The requests of \<^verbatim>\<open>list_events\<close>\<close>

lemma list_events_loop_requests:
  "requests (list_events_loop n service s params) = []
   \<or> (\<exists>rest. requests (list_events_loop n service s params) = params # rest
         \<and> (\<forall>p \<in> set rest. \<exists>page_token. page_token \<noteq> [] \<and> p = [(''page_token'', PStr page_token)]))"
proof (induction n arbitrary: s params)
  case 0
  then show ?case by simp
next
  case (Suc n)
  obtain data s' where r: "service s params = (data, s')" by (cases "service s params")
  show ?case
  proof (cases "reply_events data")
    case None
    with r show ?thesis by simp
  next
    case (Some events)
    show ?thesis
    proof (cases "next_page_token data")
      case None
      with r Some show ?thesis by simp
    next
      case tok: (Some page_token)
      show ?thesis
      proof (cases "page_token = []")
        case True
        with r Some tok show ?thesis by simp
      next
        case False
        let ?rest = "list_events_loop n service s' [(''page_token'', PStr page_token)]"
        from r Some tok False
        have req: "requests (list_events_loop (Suc n) service s params) = params # requests ?rest"
          by (simp add: Let_def)
        from Suc.IH [of s' "[(''page_token'', PStr page_token)]"] False
        have "\<forall>p \<in> set (requests ?rest).
                \<exists>page_token. page_token \<noteq> [] \<and> p = [(''page_token'', PStr page_token)]"
          by auto
        with req show ?thesis by simp
      qed
    qed
  qed
qed

lemma list_events_loop_first:
  "requests (list_events_loop (Suc n) service s params) \<noteq> []
   \<and> hd (requests (list_events_loop (Suc n) service s params)) = params"
  by (simp add: Let_def split: prod.split option.split)

lemma list_events_loop_next:
  assumes "service s params = (data, s')" and "reply_events data = Some events"
    and "next_page_token data = Some page_token" and "page_token \<noteq> []"
  shows "list_events_loop (Suc n) service s params =
           (let rest = list_events_loop n service s' [(''page_token'', PStr page_token)]
            in \<lparr>requests = params # requests rest,
                yielded = events @ yielded rest,
                progress = progress rest\<rparr>)"
  using assms by simp

text \<open>
  C10. In every run of \<^verbatim>\<open>list_events\<close>, whatever the service replies and however
  many requests are made, the first request carries the five parameters
  \<^verbatim>\<open>proof_mechanism\<close>, \<^verbatim>\<open>timestamp_accepted_since\<close>,
  \<^verbatim>\<open>timestamp_accepted_before\<close>, \<^verbatim>\<open>page_size\<close> and \<^verbatim>\<open>order_by\<close>, and every later
  request carries the single parameter \<^verbatim>\<open>page_token\<close>, a non-empty token (by
  \<open>list_events_loop_next\<close> the one of the reply before): the bounds of the time window,
  the proof mechanism, the order and the page size are not sent again.
\<close>

theorem list_events_later_requests:
  "(0 < n \<longrightarrow>
      requests (list_events n service s start_time end_time) \<noteq> []
    \<and> hd (requests (list_events n service s start_time end_time)) =
        [(''proof_mechanism'', PStr ''SIMPLE_HASH''),
         (''timestamp_accepted_since'', PStr start_time),
         (''timestamp_accepted_before'', PStr end_time),
         (''page_size'', PInt 10),
         (''order_by'', PStr ''SIMPLEHASHV1'')])
   \<and> (\<forall>p \<in> set (tl (requests (list_events n service s start_time end_time))).
        (\<exists>page_token. page_token \<noteq> [] \<and> p = [(''page_token'', PStr page_token)])
      \<and> map_of p ''timestamp_accepted_since'' = None
      \<and> map_of p ''timestamp_accepted_before'' = None
      \<and> map_of p ''proof_mechanism'' = None
      \<and> map_of p ''order_by'' = None
      \<and> map_of p ''page_size'' = None)"
proof -
  let ?l = "list_events n service s start_time end_time"
  have first: "requests ?l \<noteq> [] \<and> hd (requests ?l) = first_params start_time end_time"
    if "0 < n"
  proof -
    from that obtain m where "n = Suc m" by (cases n) simp_all
    with list_events_loop_first [of m service s "first_params start_time end_time"]
    show ?thesis by (simp add: list_events_def)
  qed
  have later: "\<exists>page_token. page_token \<noteq> [] \<and> p = [(''page_token'', PStr page_token)]"
    if "p \<in> set (tl (requests ?l))" for p
    using list_events_loop_requests [of n service s "first_params start_time end_time"] that
    by (auto simp add: list_events_def)
  have "map_of p ''timestamp_accepted_since'' = None
      \<and> map_of p ''timestamp_accepted_before'' = None
      \<and> map_of p ''proof_mechanism'' = None
      \<and> map_of p ''order_by'' = None
      \<and> map_of p ''page_size'' = None"
    if "p \<in> set (tl (requests ?l))" for p
    using later [OF that] by auto
  with first later show ?thesis by (simp add: first_params_def)
qed

text \<open>The theorem at the sample service, which ends the listing with its third reply.\<close>

theorem list_events_later_requests_witness:
  "requests (list_events (Suc (Suc (Suc (Suc 0)))) sample_service 0
               ''2023-01-01T00:00:00Z'' ''2023-02-01T00:00:00Z'') =
     [[(''proof_mechanism'', PStr ''SIMPLE_HASH''),
       (''timestamp_accepted_since'', PStr ''2023-01-01T00:00:00Z''),
       (''timestamp_accepted_before'', PStr ''2023-02-01T00:00:00Z''),
       (''page_size'', PInt 10),
       (''order_by'', PStr ''SIMPLEHASHV1'')],
      [(''page_token'', PStr ''next'')],
      [(''page_token'', PStr ''next'')]]
   \<and> progress (list_events (Suc (Suc (Suc (Suc 0)))) sample_service 0
               ''2023-01-01T00:00:00Z'' ''2023-02-01T00:00:00Z'') = Exhausted"
proof -
  have r: "requests (list_events (Suc (Suc (Suc (Suc 0)))) sample_service 0
               ''2023-01-01T00:00:00Z'' ''2023-02-01T00:00:00Z'') =
     [[(''proof_mechanism'', PStr ''SIMPLE_HASH''),
       (''timestamp_accepted_since'', PStr ''2023-01-01T00:00:00Z''),
       (''timestamp_accepted_before'', PStr ''2023-02-01T00:00:00Z''),
       (''page_size'', PInt 10),
       (''order_by'', PStr ''SIMPLEHASHV1'')],
      [(''page_token'', PStr ''next'')],
      [(''page_token'', PStr ''next'')]]"
    and p: "progress (list_events (Suc (Suc (Suc (Suc 0)))) sample_service 0
               ''2023-01-01T00:00:00Z'' ''2023-02-01T00:00:00Z'') = Exhausted"
    by (simp_all add: list_events_def first_params_def sample_service_def)
  from list_events_later_requests [of "Suc (Suc (Suc (Suc 0)))" sample_service 0
      "''2023-01-01T00:00:00Z''" "''2023-02-01T00:00:00Z''"] r p
  show ?thesis by simp
qed

end
